theory Spec2Isabelle
  imports Main "HOL-Library.Word"
begin

unbundle bit_operations_syntax

chapter \<open>The model\<close>

section \<open>Common types\<close>

type_synonym cl_uint = "32 word"
type_synonym cl_int = "32 word"
type_synonym Datum = "64 word"
type_synonym byte = "8 word"

text \<open>
  A heap tuple is the byte image \<open>t_data\<close>; its \<open>t_len\<close> is the length of
  the image. A tuple table slot holds one tuple; the empty slot (\<open>TupIsNull\<close>) is
  \<open>None\<close>.
\<close>

type_synonym HeapTuple = "byte list"

section \<open>The multihash-tables buffer (pgstrom_multihash_tables)\<close>

record kern_hashentry =
  hash :: cl_uint
  "next" :: cl_uint
  rowid :: cl_uint
  t_len :: cl_uint
  htup :: HeapTuple

text \<open>
  One per-depth hash table. Entries are addressed by their byte offset from the
  head of the table, as the chain links of the source are.
\<close>

record kern_hashtable =
  length_ht :: nat
  ncols :: cl_uint
  nslots :: cl_uint
  is_outer :: bool
  hash_slots :: "cl_uint list"
  hentries :: "nat \<rightharpoonup> kern_hashentry"

text \<open>
  The shared buffer. \<open>htable_offset\<close> maps a depth to the offset of its table
  (0: not built yet), \<open>htables\<close> maps such an offset to the table stored
  there and \<open>ntables\<close> is the number of inner relations. \<open>m_hash\<close> and \<open>ev_hash\<close> are the OpenCL handles, \<open>None\<close> for NULL.
\<close>

record pgstrom_multihash_tables =
  length_mh :: nat
  usage :: nat
  ntuples :: nat
  is_divided :: bool
  refcnt :: nat
  dindex :: int
  n_kernel :: int
  m_hash :: "nat option"
  ev_hash :: "nat option"
  ntables :: cl_uint
  htable_offset :: "nat \<Rightarrow> nat"
  htables :: "nat \<rightharpoonup> kern_hashtable"

section \<open>Join sessions (pgstrom_gpuhashjoin)\<close>

datatype kds_format =
    KDS_FORMAT_ROW
  | KDS_FORMAT_ROW_FLAT
  | KDS_FORMAT_TUPSLOT
  | KDS_FORMAT_OTHER

text \<open>
  The error code of a message or of a result buffer: one of the StromError codes
  the sources name, or an OpenCL status other than \<open>CL_SUCCESS\<close>. Both share
  one C integer, in which \<open>CL_SUCCESS\<close> and \<open>StromError_Success\<close> are 0.
\<close>

datatype strom_error =
    StromError_Success
  | StromError_DataStoreNoSpace
  | StromError_DataStoreCorruption
  | StromError_OutOfSharedMemory
  | StromError_OpenCLInternal
  | CL_Error int

record kern_resultbuf =
  nrels :: cl_uint
  nrooms :: cl_uint
  nitems :: cl_uint
  errcode :: strom_error

record kern_data_store =
  format :: kds_format
  ncols_kds :: cl_uint
  nitems_kds :: cl_uint
  nrooms_kds :: cl_uint
  length_kds :: nat
  usage_kds :: nat
  maxblocks :: nat

text \<open>
  One session: the error code of its message, the outer chunk \<open>pds\<close>, the row
  map's \<open>nvalids\<close>, the result buffer and the destination store.
\<close>

record pgstrom_gpuhashjoin =
  msg_errcode :: strom_error
  pds :: "HeapTuple list"
  nvalids :: int
  kresults :: kern_resultbuf
  pds_dest :: kern_data_store

section \<open>The executor state of GpuHashJoin\<close>

text \<open>
  What the backend does to its collaborators is recorded as a trace of events, in
  the order of the calls. \<open>EvEnqueue n\<close> is a session handed to the device
  server, with the number of sessions then in flight.
\<close>

datatype exec_event =
    EvPutMessage
  | EvPutTables
  | EvReScanInner
  | EvReScanOuter
  | EvMultiExecInner
  | EvEnqueue int
  | EvTryDequeue
  | EvDequeueWait

datatype exec_error =
    QueueWaitTimeout
  | EnqueueFailed
  | OutOfSharedMemory
  | UnexpectedResultFormat
  | OpenCLExecError strom_error

text \<open>
  The node, with the part of its surroundings it acts on.
  \<open>chgParam_inner\<close> and \<open>chgParam_outer\<close> say that the \<open>chgParam\<close> set of the
  inner, respectively outer, plan state is not NULL.
  \<open>inner_rel\<close> lists the buffers the inner MultiHash node yields to successive
  \<open>MultiExecProcNode\<close> calls after a rescan and \<open>inner_chunks\<close> those it has still
  to yield (none left: NULL); \<open>outer_rel\<close> and \<open>outer_rows\<close> are the same for the
  tuples of the outer plan, which in bulk mode come \<open>bulk_len\<close> at a time.
  \<open>pds_fits rows t\<close> says that \<open>pgstrom_data_store_insert_tuple\<close> finds room for
  \<open>t\<close> in a store holding \<open>rows\<close>. \<open>estimate_nrooms n\<close> is the C expression
  \<open>(cl_uint)((double) n * row_population_ratio * 1.1)\<close> and \<open>create_dest\<close> the
  making of the destination store, both outside the sources.
  \<open>mqueue\<close> is the script of the answers of the message queue to successive
  dequeue calls, a message or none (a timeout for the blocking call; past the
  end of the script there is none); \<open>enqueue_ok\<close> and \<open>shmem_ok\<close> script the
  results of \<open>pgstrom_enqueue_message\<close> and of \<open>pgstrom_shmem_alloc\<close> in the same
  way, success past their end.
\<close>

record GpuHashJoinState =
  curr_ghjoin :: "pgstrom_gpuhashjoin option"
  curr_index :: nat
  curr_recheck :: bool
  num_running :: int
  pgstrom_max_async_chunks :: int
  ready_pscans :: "pgstrom_gpuhashjoin list"
  mhtables :: "pgstrom_multihash_tables option"
  outer_done :: bool
  outer_bulkload :: bool
  outer_overflow :: "HeapTuple option"
  chgParam_inner :: bool
  chgParam_outer :: bool
  inner_rel :: "pgstrom_multihash_tables list"
  inner_chunks :: "pgstrom_multihash_tables list"
  outer_rel :: "HeapTuple list"
  outer_rows :: "HeapTuple list"
  bulk_len :: nat
  pds_fits :: "HeapTuple list \<Rightarrow> HeapTuple \<Rightarrow> bool"
  estimate_nrooms :: "nat \<Rightarrow> cl_uint"
  create_dest :: "kds_format \<Rightarrow> cl_uint \<Rightarrow> kern_data_store"
  mqueue :: "pgstrom_gpuhashjoin option list"
  enqueue_ok :: "bool list"
  shmem_ok :: "bool list"
  trace :: "exec_event list"

definition emit :: "exec_event \<Rightarrow> GpuHashJoinState \<Rightarrow> GpuHashJoinState" where
  "emit e ghjs = ghjs\<lparr>trace := trace ghjs @ [e]\<rparr>"

text \<open>\<open>ExecReScan\<close> of the inner and of the outer plan: the scan starts over.\<close>

definition ExecReScan_inner :: "GpuHashJoinState \<Rightarrow> GpuHashJoinState" where
  "ExecReScan_inner ghjs = (emit EvReScanInner ghjs)\<lparr>inner_chunks := inner_rel ghjs\<rparr>"

definition ExecReScan_outer :: "GpuHashJoinState \<Rightarrow> GpuHashJoinState" where
  "ExecReScan_outer ghjs = (emit EvReScanOuter ghjs)\<lparr>outer_rows := outer_rel ghjs\<rparr>"

text \<open>Both dequeue calls take the next answer of the script.\<close>

definition dequeue_message :: "exec_event \<Rightarrow> GpuHashJoinState
    \<Rightarrow> pgstrom_gpuhashjoin option \<times> GpuHashJoinState" where
  "dequeue_message e ghjs =
     (case mqueue ghjs of
        [] \<Rightarrow> (None, emit e ghjs)
      | m # rest \<Rightarrow> (m, (emit e ghjs)\<lparr>mqueue := rest\<rparr>))"

subsection \<open>gpuhashjoin_rescan\<close>

definition release_curr :: "GpuHashJoinState \<Rightarrow> GpuHashJoinState" where
  "release_curr ghjs =
     (if curr_ghjoin ghjs \<noteq> None
      then (emit EvPutMessage ghjs)
             \<lparr>curr_ghjoin := None, curr_index := 0, curr_recheck := False\<rparr>
      else ghjs)"

lemma dequeue_message_running:
  "dequeue_message e ghjs = (m, g) \<Longrightarrow> num_running g = num_running ghjs"
  by (auto simp: dequeue_message_def emit_def split: list.splits)

text \<open>The loop \<open>while (ghjs->num_running > 0)\<close> of the rescan.\<close>

function drain_running :: "GpuHashJoinState \<Rightarrow> exec_error + GpuHashJoinState" where
  "drain_running ghjs =
     (if num_running ghjs > 0
      then (case dequeue_message EvDequeueWait ghjs of
              (None, g) \<Rightarrow> Inl QueueWaitTimeout
            | (Some m, g) \<Rightarrow>
                drain_running ((emit EvPutMessage g)\<lparr>num_running := num_running g - 1\<rparr>))
      else Inr ghjs)"
  by pat_completeness auto
termination
  by (relation "measure (\<lambda>g. nat (num_running g))")
    (auto simp: emit_def dest!: dequeue_message_running[OF sym])

declare drain_running.simps [simp del]

definition rescan_tables :: "GpuHashJoinState \<Rightarrow> GpuHashJoinState" where
  "rescan_tables ghjs =
     (case mhtables ghjs of
        None \<Rightarrow> ghjs
      | Some mht \<Rightarrow>
          if is_divided mht \<or> \<not> chgParam_inner ghjs
          then (emit EvPutTables
                  (if \<not> chgParam_inner ghjs then ExecReScan_inner ghjs else ghjs))
                 \<lparr>mhtables := None\<rparr>
          else ghjs)"

definition rescan_outer :: "GpuHashJoinState \<Rightarrow> GpuHashJoinState" where
  "rescan_outer ghjs =
     (let g = ghjs\<lparr>outer_done := False, outer_overflow := None\<rparr>
      in if \<not> chgParam_outer g then ExecReScan_outer g else g)"

definition gpuhashjoin_rescan :: "GpuHashJoinState \<Rightarrow> exec_error + GpuHashJoinState" where
  "gpuhashjoin_rescan ghjs =
     (case drain_running (release_curr ghjs) of
        Inl e \<Rightarrow> Inl e
      | Inr g \<Rightarrow> Inr (rescan_outer (rescan_tables g)))"

text \<open>
  A freshly built, single-chunk buffer and an idle join node holding it, its
  outer scan over two tuples finished.
\<close>

definition fresh_tables :: pgstrom_multihash_tables where
  "fresh_tables =
     \<lparr>length_mh = 4096, usage = 64, ntuples = 0, is_divided = False, refcnt = 1,
      dindex = -1, n_kernel = 0, m_hash = None, ev_hash = None, ntables = 1,
      htable_offset = (\<lambda>_. 0), htables = Map.empty\<rparr>"

definition plain_dest :: "kds_format \<Rightarrow> cl_uint \<Rightarrow> kern_data_store" where
  "plain_dest fmt n =
     \<lparr>format = fmt, ncols_kds = 2, nitems_kds = 0, nrooms_kds = n,
      length_kds = 64 + 24 * unat n, usage_kds = 0, maxblocks = 0\<rparr>"

definition idle_node :: GpuHashJoinState where
  "idle_node =
     \<lparr>curr_ghjoin = None, curr_index = 0, curr_recheck = False, num_running = 0,
      pgstrom_max_async_chunks = 1, ready_pscans = [],
      mhtables = Some fresh_tables, outer_done = True, outer_bulkload = False,
      outer_overflow = None, chgParam_inner = False, chgParam_outer = False,
      inner_rel = [fresh_tables], inner_chunks = [],
      outer_rel = [[1, 7], [2, 8]], outer_rows = [],
      bulk_len = 1, pds_fits = (\<lambda>rows t. length rows < 1),
      estimate_nrooms = (\<lambda>n. of_nat n), create_dest = plain_dest,
      mqueue = [], enqueue_ok = [], shmem_ok = [], trace = []\<rparr>"

subsection \<open>gpuhashjoin_load_next_chunk\<close>

text \<open>
  The next slot of the outer scan in row-by-row mode: the stashed tuple if there
  is one, else the outer plan's next tuple.
\<close>

definition take_outer_slot :: "GpuHashJoinState \<Rightarrow> HeapTuple option \<times> GpuHashJoinState" where
  "take_outer_slot ghjs =
     (case outer_overflow ghjs of
        Some slot \<Rightarrow> (Some slot, ghjs\<lparr>outer_overflow := None\<rparr>)
      | None \<Rightarrow>
          (case outer_rows ghjs of
             [] \<Rightarrow> (None, ghjs)
           | slot # rest \<Rightarrow> (Some slot, ghjs\<lparr>outer_rows := rest\<rparr>)))"

definition outer_pending :: "GpuHashJoinState \<Rightarrow> nat" where
  "outer_pending ghjs =
     length (outer_rows ghjs) + (case outer_overflow ghjs of None \<Rightarrow> 0 | Some _ \<Rightarrow> 1)"

lemma take_outer_slot_fewer:
  "take_outer_slot ghjs = (Some slot, g) \<Longrightarrow> outer_pending g < outer_pending ghjs"
  by (auto simp: take_outer_slot_def outer_pending_def split: option.splits list.splits)

text \<open>
  The loop that fills one data store, created at the first tuple; a tuple that
  finds no room is stashed in \<open>outer_overflow\<close>.
\<close>

function scan_outer_rows :: "GpuHashJoinState \<Rightarrow> HeapTuple list option
    \<Rightarrow> HeapTuple list option \<times> GpuHashJoinState" where
  "scan_outer_rows ghjs store =
     (case take_outer_slot ghjs of
        (None, g) \<Rightarrow> (store, g\<lparr>outer_done := True\<rparr>)
      | (Some slot, g) \<Rightarrow>
          (let rows = (case store of None \<Rightarrow> [] | Some r \<Rightarrow> r)
           in if pds_fits g rows slot then scan_outer_rows g (Some (rows @ [slot]))
              else (Some rows, g\<lparr>outer_overflow := Some slot\<rparr>)))"
  by pat_completeness auto
termination
  by (relation "measure (\<lambda>(g, store). outer_pending g)")
    (auto dest: take_outer_slot_fewer[OF sym])

declare scan_outer_rows.simps [simp del]

text \<open>
  The head of the function: when the outer scan is done, or no buffer is held,
  the held buffer is put and the next inner buffer is loaded, and the outer scan
  is rewound for it. \<open>False\<close>: the inner node has no further buffer.
\<close>

definition load_inner_table :: "GpuHashJoinState \<Rightarrow> bool \<times> GpuHashJoinState" where
  "load_inner_table ghjs =
     (if outer_done ghjs \<or> mhtables ghjs = None
      then (let g1 = (if mhtables ghjs \<noteq> None
                      then (emit EvPutTables ghjs)\<lparr>mhtables := None\<rparr> else ghjs);
                g2 = emit EvMultiExecInner g1
            in case inner_chunks g2 of
                 [] \<Rightarrow> (False, g2)
               | mh # rest \<Rightarrow>
                   (let g3 = g2\<lparr>mhtables := Some mh, inner_chunks := rest\<rparr>
                    in (True, if outer_done g3
                              then (ExecReScan_outer g3)\<lparr>outer_done := False\<rparr>
                              else g3)))
      else (True, ghjs))"

definition load_outer_bulk :: "GpuHashJoinState \<Rightarrow> HeapTuple list option \<times> GpuHashJoinState"
  where
  "load_outer_bulk ghjs =
     (if \<not> outer_bulkload ghjs then scan_outer_rows ghjs None
      else (case outer_rows ghjs of
              [] \<Rightarrow> (None, ghjs\<lparr>outer_done := True\<rparr>)
            | _ \<Rightarrow> (Some (take (bulk_len ghjs) (outer_rows ghjs)),
                    ghjs\<lparr>outer_rows := drop (bulk_len ghjs) (outer_rows ghjs)\<rparr>)))"

text \<open>
  \<open>pgstrom_create_gpuhashjoin\<close>: the session of one outer chunk against the held
  buffer, every row valid.
\<close>

definition pgstrom_create_gpuhashjoin :: "kds_format \<Rightarrow> HeapTuple list \<Rightarrow> GpuHashJoinState
    \<Rightarrow> exec_error + pgstrom_gpuhashjoin \<times> GpuHashJoinState" where
  "pgstrom_create_gpuhashjoin result_format rows ghjs =
     (case shmem_ok ghjs of
        False # rest \<Rightarrow> Inl OutOfSharedMemory
      | _ \<Rightarrow>
          if result_format = KDS_FORMAT_TUPSLOT \<or> result_format = KDS_FORMAT_ROW_FLAT
          then Inr (\<lparr>msg_errcode = StromError_Success, pds = rows, nvalids = - 1,
                     kresults =
                       \<lparr>nrels = (case mhtables ghjs of None \<Rightarrow> 0 | Some mht \<Rightarrow> ntables mht) + 1,
                        nrooms = estimate_nrooms ghjs (length rows), nitems = 0,
                        errcode = StromError_Success\<rparr>,
                     pds_dest = create_dest ghjs result_format
                                  (estimate_nrooms ghjs (length rows))\<rparr>,
                    ghjs\<lparr>shmem_ok := tl (shmem_ok ghjs)\<rparr>)
          else Inl UnexpectedResultFormat)"

definition inner_budget :: "GpuHashJoinState \<Rightarrow> nat" where
  "inner_budget ghjs =
     2 * length (inner_chunks ghjs)
       + (if outer_done ghjs \<or> mhtables ghjs = None then 0 else 1)"

lemma scan_outer_rows_none:
  "scan_outer_rows ghjs store = (None, g) \<Longrightarrow>
     outer_done g \<and> inner_chunks g = inner_chunks ghjs \<and> mhtables g = mhtables ghjs"
proof (induction ghjs store rule: scan_outer_rows.induct)
  case (1 ghjs store)
  note unfold = scan_outer_rows.simps[of ghjs store]
  obtain slot g1 where t: "take_outer_slot ghjs = (slot, g1)" by (cases "take_outer_slot ghjs")
  then have same: "inner_chunks g1 = inner_chunks ghjs" "mhtables g1 = mhtables ghjs"
    by (auto simp: take_outer_slot_def split: option.splits list.splits)
  show ?case
  proof (cases slot)
    case None
    with t "1.prems" unfold same show ?thesis by auto
  next
    case (Some tup)
    let ?rows = "case store of None \<Rightarrow> [] | Some r \<Rightarrow> r"
    show ?thesis
    proof (cases "pds_fits g1 ?rows tup")
      case True
      with Some t "1.prems" unfold
      have "scan_outer_rows g1 (Some (?rows @ [tup])) = (None, g)" by (simp add: Let_def)
      from "1.IH"[OF t[symmetric] Some refl True this] same show ?thesis by simp
    next
      case False
      with Some t "1.prems" unfold show ?thesis by (simp add: Let_def)
    qed
  qed
qed

lemma load_outer_bulk_none:
  "load_outer_bulk ghjs = (None, g) \<Longrightarrow>
     outer_done g \<and> inner_chunks g = inner_chunks ghjs \<and> mhtables g = mhtables ghjs"
  by (auto simp: load_outer_bulk_def dest: scan_outer_rows_none split: if_splits list.splits)

lemma load_inner_table_budget:
  "load_inner_table ghjs = (True, g) \<Longrightarrow>
     2 * length (inner_chunks g) < inner_budget ghjs"
  by (auto simp: load_inner_table_def inner_budget_def emit_def ExecReScan_outer_def Let_def
      split: if_splits list.splits)

text \<open>
  The function with its \<open>goto retry\<close>: a pass that finds the outer scan at its
  end makes no session and starts over, with the next inner buffer.
\<close>

function gpuhashjoin_load_next_chunk :: "kds_format \<Rightarrow> GpuHashJoinState
    \<Rightarrow> exec_error + pgstrom_gpuhashjoin option \<times> GpuHashJoinState" where
  "gpuhashjoin_load_next_chunk result_format ghjs =
     (case load_inner_table ghjs of
        (False, g1) \<Rightarrow> Inr (None, g1)
      | (True, g1) \<Rightarrow>
          (case load_outer_bulk g1 of
             (Some rows, g2) \<Rightarrow>
               (case pgstrom_create_gpuhashjoin result_format rows g2 of
                  Inl e \<Rightarrow> Inl e
                | Inr (gpuhashjoin, g3) \<Rightarrow> Inr (Some gpuhashjoin, g3))
           | (None, g2) \<Rightarrow> gpuhashjoin_load_next_chunk result_format g2))"
  by pat_completeness auto
termination
proof (relation "measure (\<lambda>(fmt, g). inner_budget g)", goal_cases)
  case 1
  show ?case by simp
next
  case (2 result_format ghjs x1 g1 x1a g2)
  from 2(1) 2(2) have "2 * length (inner_chunks g1) < inner_budget ghjs"
    by (auto dest: load_inner_table_budget[OF sym])
  moreover from 2(3) 2(4) have "inner_budget g2 = 2 * length (inner_chunks g1)"
    by (auto simp: inner_budget_def dest!: load_outer_bulk_none[OF sym])
  ultimately show ?case by simp
qed

declare gpuhashjoin_load_next_chunk.simps [simp del]

subsection \<open>pgstrom_fetch_gpuhashjoin\<close>

text \<open>Loading a chunk leaves the bookkeeping of the sessions in flight alone.\<close>

definition same_window :: "GpuHashJoinState \<Rightarrow> GpuHashJoinState \<Rightarrow> bool" where
  "same_window g g' \<longleftrightarrow>
     num_running g' = num_running g \<and>
     pgstrom_max_async_chunks g' = pgstrom_max_async_chunks g \<and>
     ready_pscans g' = ready_pscans g \<and> mqueue g' = mqueue g \<and>
     (\<forall>n. EvEnqueue n \<in> set (trace g') \<longrightarrow> EvEnqueue n \<in> set (trace g)) \<and>
     (EvDequeueWait \<in> set (trace g') \<longrightarrow> EvDequeueWait \<in> set (trace g))"

lemma same_window_refl: "same_window g g"
  by (simp add: same_window_def)

lemma same_window_trans: "same_window g g1 \<Longrightarrow> same_window g1 g2 \<Longrightarrow> same_window g g2"
  by (simp add: same_window_def)

lemma scan_outer_rows_window:
  "scan_outer_rows ghjs store = (r, g) \<Longrightarrow> same_window ghjs g"
proof (induction ghjs store rule: scan_outer_rows.induct)
  case (1 ghjs store)
  note unfold = scan_outer_rows.simps[of ghjs store]
  obtain slot g1 where t: "take_outer_slot ghjs = (slot, g1)" by (cases "take_outer_slot ghjs")
  then have same: "same_window ghjs g1"
    by (auto simp: take_outer_slot_def same_window_def split: option.splits list.splits)
  show ?case
  proof (cases slot)
    case None
    with t "1.prems" unfold same show ?thesis by (auto simp: same_window_def)
  next
    case (Some tup)
    let ?rows = "case store of None \<Rightarrow> [] | Some r \<Rightarrow> r"
    show ?thesis
    proof (cases "pds_fits g1 ?rows tup")
      case True
      with Some t "1.prems" unfold
      have "scan_outer_rows g1 (Some (?rows @ [tup])) = (r, g)" by (simp add: Let_def)
      from "1.IH"[OF t[symmetric] Some refl True this] same show ?thesis
        by (rule same_window_trans[rotated])
    next
      case False
      with Some t "1.prems" unfold same show ?thesis
        by (auto simp: Let_def same_window_def)
    qed
  qed
qed

lemma load_inner_table_window:
  "load_inner_table ghjs = (b, g) \<Longrightarrow> same_window ghjs g"
  by (auto simp: load_inner_table_def same_window_def emit_def ExecReScan_outer_def Let_def
      split: if_splits list.splits)

lemma load_outer_bulk_window:
  "load_outer_bulk ghjs = (r, g) \<Longrightarrow> same_window ghjs g"
  by (auto simp: load_outer_bulk_def same_window_def dest: scan_outer_rows_window
      split: if_splits list.splits)

lemma create_gpuhashjoin_window:
  "pgstrom_create_gpuhashjoin fmt rows ghjs = Inr (m, g) \<Longrightarrow> same_window ghjs g"
  by (auto simp: pgstrom_create_gpuhashjoin_def same_window_def
      split: if_splits list.splits bool.splits)

lemma load_next_chunk_window:
  "gpuhashjoin_load_next_chunk fmt ghjs = Inr (r, g) \<Longrightarrow> same_window ghjs g"
proof (induction fmt ghjs rule: gpuhashjoin_load_next_chunk.induct)
  case (1 fmt ghjs)
  note unfold = gpuhashjoin_load_next_chunk.simps[of fmt ghjs]
  obtain b g1 where li: "load_inner_table ghjs = (b, g1)" by (cases "load_inner_table ghjs")
  note w1 = load_inner_table_window[OF li]
  show ?case
  proof (cases b)
    case False
    with li "1.prems" unfold w1 show ?thesis by simp
  next
    case True
    obtain bulk g2 where lo: "load_outer_bulk g1 = (bulk, g2)" by (cases "load_outer_bulk g1")
    note w2 = same_window_trans[OF w1 load_outer_bulk_window[OF lo]]
    show ?thesis
    proof (cases bulk)
      case None
      with True li lo "1.prems" unfold
      have rec: "gpuhashjoin_load_next_chunk fmt g2 = Inr (r, g)" by simp
      from True have bT: "b = True" by simp
      from "1.IH"[OF li[symmetric] bT lo[symmetric] None rec] w2 show ?thesis
        by (rule same_window_trans[rotated])
    next
      case (Some rows)
      with True li lo "1.prems" unfold obtain m where
        "pgstrom_create_gpuhashjoin fmt rows g2 = Inr (m, g)"
        by (auto split: sum.splits)
      from w2 create_gpuhashjoin_window[OF this] show ?thesis by (rule same_window_trans)
    qed
  qed
qed

definition enqueue_message :: "GpuHashJoinState \<Rightarrow> bool \<times> GpuHashJoinState" where
  "enqueue_message ghjs =
     (case enqueue_ok ghjs of
        False # rest \<Rightarrow> (False, ghjs\<lparr>enqueue_ok := rest\<rparr>)
      | _ \<Rightarrow> (True, ghjs\<lparr>enqueue_ok := tl (enqueue_ok ghjs)\<rparr>))"

text \<open>
  The loop \<open>while (!outer_done && num_running <= pgstrom_max_async_chunks)\<close>: a
  chunk is loaded and its session enqueued; a response that is already there
  ends the loop.
\<close>

function fetch_loop :: "kds_format \<Rightarrow> GpuHashJoinState \<Rightarrow> exec_error + GpuHashJoinState" where
  "fetch_loop result_format ghjs =
     (if \<not> outer_done ghjs \<and> num_running ghjs \<le> pgstrom_max_async_chunks ghjs
      then (case gpuhashjoin_load_next_chunk result_format ghjs of
              Inl e \<Rightarrow> Inl e
            | Inr (None, g1) \<Rightarrow> Inr g1
            | Inr (Some ghjoin, g1) \<Rightarrow>
                (case enqueue_message g1 of
                   (False, g2) \<Rightarrow> Inl EnqueueFailed
                 | (True, g2) \<Rightarrow>
                     (case dequeue_message EvTryDequeue
                             ((emit (EvEnqueue (num_running g2 + 1)) g2)
                                \<lparr>num_running := num_running g2 + 1\<rparr>) of
                        (Some msg, g4) \<Rightarrow>
                          Inr (g4\<lparr>num_running := num_running g4 - 1,
                                  ready_pscans := ready_pscans g4 @ [msg]\<rparr>)
                      | (None, g4) \<Rightarrow> fetch_loop result_format g4)))
      else Inr ghjs)"
  by pat_completeness auto
termination
proof (relation "measure (\<lambda>(fmt, g). nat (pgstrom_max_async_chunks g + 1 - num_running g))",
    goal_cases)
  case 1
  show ?case by simp
next
  case (2 result_format ghjs b x y x2 xa ya xb yb)
  from 2(2) 2(3) have "gpuhashjoin_load_next_chunk result_format ghjs = Inr (x, y)" by simp
  then have "same_window ghjs y" by (rule load_next_chunk_window)
  moreover from 2(5) have "num_running ya = num_running y"
    "pgstrom_max_async_chunks ya = pgstrom_max_async_chunks y"
    by (auto simp: enqueue_message_def split: list.splits bool.splits)
  moreover from 2(7) have "num_running yb = num_running ya + 1"
    "pgstrom_max_async_chunks yb = pgstrom_max_async_chunks ya"
    by (auto simp: dequeue_message_def emit_def split: list.splits)
  ultimately show ?case using 2(1) by (simp add: same_window_def)
qed

declare fetch_loop.simps [simp del]

text \<open>
  The wait for a response when none is at hand; \<open>None\<close>: nothing is in flight
  and the function returns NULL.
\<close>

definition wait_response :: "GpuHashJoinState \<Rightarrow> exec_error + GpuHashJoinState option" where
  "wait_response ghjs =
     (if ready_pscans ghjs = []
      then (if num_running ghjs = 0 then Inr None
            else (case dequeue_message EvDequeueWait ghjs of
                    (None, g) \<Rightarrow> Inl QueueWaitTimeout
                  | (Some msg, g) \<Rightarrow>
                      Inr (Some (g\<lparr>num_running := num_running g - 1,
                                   ready_pscans := ready_pscans g @ [msg]\<rparr>))))
      else Inr (Some ghjs))"

text \<open>The pick of the first ready session, and the check of its error code.\<close>

definition pick_ready :: "GpuHashJoinState
    \<Rightarrow> exec_error + pgstrom_gpuhashjoin option \<times> GpuHashJoinState" where
  "pick_ready ghjs =
     (case ready_pscans ghjs of
        [] \<Rightarrow> Inr (None, ghjs)
      | ghjoin # rest \<Rightarrow>
          if msg_errcode ghjoin \<noteq> StromError_Success
          then Inl (OpenCLExecError (msg_errcode ghjoin))
          else Inr (Some ghjoin, ghjs\<lparr>ready_pscans := rest\<rparr>))"

definition pgstrom_fetch_gpuhashjoin :: "kds_format \<Rightarrow> GpuHashJoinState
    \<Rightarrow> exec_error + pgstrom_gpuhashjoin option \<times> GpuHashJoinState" where
  "pgstrom_fetch_gpuhashjoin result_format ghjs =
     (case fetch_loop result_format ghjs of
        Inl e \<Rightarrow> Inl e
      | Inr g1 \<Rightarrow>
          (case wait_response g1 of
             Inl e \<Rightarrow> Inl e
           | Inr None \<Rightarrow> Inr (None, g1)
           | Inr (Some g2) \<Rightarrow> pick_ready g2))"

text \<open>A node in the middle of its outer scan with one session in flight.\<close>

definition busy_node :: GpuHashJoinState where
  "busy_node =
     idle_node\<lparr>num_running := 1, outer_done := False, outer_rows := [[1, 7], [2, 8]]\<rparr>"

text \<open>The same node when the response to the session in flight is already there.\<close>

definition done_session :: pgstrom_gpuhashjoin where
  "done_session =
     \<lparr>msg_errcode = StromError_Success, pds = [[0, 0]], nvalids = - 1,
      kresults = \<lparr>nrels = 2, nrooms = 1, nitems = 1, errcode = StromError_Success\<rparr>,
      pds_dest = (plain_dest KDS_FORMAT_TUPSLOT 1)\<lparr>nitems_kds := 1\<rparr>\<rparr>"

definition answered_node :: GpuHashJoinState where
  "answered_node = busy_node\<lparr>mqueue := [Some done_session]\<rparr>"

text \<open>
  The window of sessions in flight is in order when the count, and every count
  recorded at an enqueue, is at most the limit plus one.
\<close>

definition window_ok :: "GpuHashJoinState \<Rightarrow> bool" where
  "window_ok g \<longleftrightarrow>
     num_running g \<le> pgstrom_max_async_chunks g + 1 \<and>
     (\<forall>n. EvEnqueue n \<in> set (trace g) \<longrightarrow> n \<le> pgstrom_max_async_chunks g + 1)"

section \<open>The pseudo-scan column table (build_pseudo_scan_vartrans)\<close>

text \<open>
  Expression trees. The walker only tells \<open>Var\<close> and \<open>PlaceHolderVar\<close> leaves
  from everything else; any other node is \<open>Expr\<close> with its children in the order
  \<open>expression_tree_walker\<close> visits them, and \<open>NullNode\<close> is the NULL pointer.
  \<open>equal()\<close> is structural equality.
\<close>

datatype Node =
    NullNode
  | Var int int
  | PlaceHolderVar nat
  | Expr "Node list"

type_synonym AttrNumber = "16 word"
type_synonym Oid = "32 word"

record TargetEntry =
  expr :: Node
  resno :: AttrNumber
  resname :: "string option"

record vartrans_info =
  srcdepth :: nat
  srcresno :: AttrNumber
  resno_vt :: AttrNumber
  resname_vt :: "string option"
  vartype :: Oid
  vartypmod :: "32 word"
  varcollid :: Oid
  ref_host :: bool
  ref_device :: bool
  expr_vt :: Node

record pscan_varlist_context =
  varlist :: "Node list"
  varrefs :: "cl_int list"
  resnums :: "int list"
  refmode :: cl_int

text \<open>
  The \<open>forthree\<close> loop of the walker: the flags of the first entry equal to the
  node get the mode bit; \<open>None\<close> when the loop ends without a match.
\<close>

fun mark_varref :: "Node \<Rightarrow> cl_int \<Rightarrow> Node list \<Rightarrow> cl_int list \<Rightarrow> int list
    \<Rightarrow> cl_int list option" where
  "mark_varref node m (v # vs) (r # rs) (n # ns) =
     (if node = v then Some ((r OR m) # rs)
      else map_option ((#) r) (mark_varref node m vs rs ns))"
| "mark_varref node m vs rs ns = None"

definition visit_var :: "Node \<Rightarrow> pscan_varlist_context \<Rightarrow> pscan_varlist_context" where
  "visit_var node context =
     (case mark_varref node (refmode context) (varlist context) (varrefs context)
             (resnums context) of
        Some refs \<Rightarrow> context\<lparr>varrefs := refs\<rparr>
      | None \<Rightarrow>
          context\<lparr>varlist := varlist context @ [node],
                  varrefs := varrefs context @ [refmode context],
                  resnums := resnums context @ [int (length (resnums context)) + 1]\<rparr>)"

text \<open>
  The walker always returns false, so \<open>expression_tree_walker\<close> never stops early
  and visits every child; the model returns the updated context.
\<close>

fun build_pscan_varlist_walker :: "Node \<Rightarrow> pscan_varlist_context \<Rightarrow> pscan_varlist_context"
  where
  "build_pscan_varlist_walker NullNode context = context"
| "build_pscan_varlist_walker (Var no att) context = visit_var (Var no att) context"
| "build_pscan_varlist_walker (PlaceHolderVar i) context = visit_var (PlaceHolderVar i) context"
| "build_pscan_varlist_walker (Expr children) context =
     fold build_pscan_varlist_walker children context"

text \<open>
  The plan node. \<open>outer_tlists\<close> holds the target list of \<open>outerPlan(curr_plan)\<close>
  for the join node itself (depth 0) and then for each MultiHash node down the
  \<open>innerPlan\<close> chain.
\<close>

record GpuHashJoin =
  targetlist :: "TargetEntry list"
  qual :: "Node list"
  hash_clauses :: "Node list"
  qual_clauses :: "Node list"
  host_clauses :: "Node list"
  outer_tlists :: "TargetEntry list list"

definition collect_host_vars :: "GpuHashJoin \<Rightarrow> pscan_varlist_context" where
  "collect_host_vars ghjoin =
     fold build_pscan_varlist_walker
       (map expr (targetlist ghjoin) @ qual ghjoin @ host_clauses ghjoin)
       \<lparr>varlist = [], varrefs = [], resnums = [], refmode = 1\<rparr>"

definition collect_pscan_vars :: "GpuHashJoin \<Rightarrow> pscan_varlist_context" where
  "collect_pscan_vars ghjoin =
     fold build_pscan_varlist_walker
       (hash_clauses ghjoin @ qual_clauses ghjoin)
       ((collect_host_vars ghjoin)\<lparr>refmode := 2\<rparr>)"

text \<open>
  \<open>exprType\<close>, \<open>exprTypmod\<close> and \<open>exprCollation\<close> belong to the host database;
  they are parameters.
\<close>

record expr_info =
  exprType :: "Node \<Rightarrow> Oid"
  exprTypmod :: "Node \<Rightarrow> 32 word"
  exprCollation :: "Node \<Rightarrow> Oid"

fun find_tle :: "Node \<Rightarrow> TargetEntry list \<Rightarrow> TargetEntry option" where
  "find_tle node [] = None"
| "find_tle node (tle # tles) = (if node = expr tle then Some tle else find_tle node tles)"

text \<open>The stored \<open>resno\<close> is an AttrNumber: the int is cut to 16 bits.\<close>

definition make_vartrans :: "expr_info \<Rightarrow> nat \<Rightarrow> TargetEntry \<Rightarrow> Node \<Rightarrow> cl_int \<Rightarrow> int
    \<Rightarrow> vartrans_info" where
  "make_vartrans X depth tle node mode resnum =
     \<lparr>srcdepth = depth, srcresno = resno tle, resno_vt = word_of_int resnum,
      resname_vt = resname tle, vartype = exprType X (expr tle),
      vartypmod = exprTypmod X (expr tle), varcollid = exprCollation X (expr tle),
      ref_host = (mode AND 1 \<noteq> 0), ref_device = (mode AND 2 \<noteq> 0), expr_vt = node\<rparr>"

text \<open>
  One pass over the pending references at one depth. A reference found in the
  target list yields an entry and is deleted from the three pending lists (the
  \<open>prev\<close> cursors and \<open>retry_from_head\<close> of the source delete in place while
  iterating); one not found stays pending.
\<close>

fun scan_pending :: "expr_info \<Rightarrow> nat \<Rightarrow> TargetEntry list \<Rightarrow> Node list \<Rightarrow> cl_int list
    \<Rightarrow> int list \<Rightarrow> vartrans_info list \<times> Node list \<times> cl_int list \<times> int list" where
  "scan_pending X depth tlist (node # vs) (mode # rs) (resnum # ns) =
     (case scan_pending X depth tlist vs rs ns of
        (temp, vs', rs', ns') \<Rightarrow>
          (case find_tle node tlist of
             Some tle \<Rightarrow> (make_vartrans X depth tle node mode resnum # temp, vs', rs', ns')
           | None \<Rightarrow> (temp, node # vs', mode # rs', resnum # ns')))"
| "scan_pending X depth tlist vs rs ns = ([], vs, rs, ns)"

fun resolve_depths :: "expr_info \<Rightarrow> nat \<Rightarrow> TargetEntry list list \<Rightarrow> Node list \<Rightarrow> cl_int list
    \<Rightarrow> int list \<Rightarrow> vartrans_info list" where
  "resolve_depths X depth [] vs rs ns = []"
| "resolve_depths X depth (tlist # tls) vs rs ns =
     (case scan_pending X depth tlist vs rs ns of
        (temp, vs', rs', ns') \<Rightarrow> temp @ resolve_depths X (Suc depth) tls vs' rs' ns')"

definition build_pseudo_scan_vartrans :: "expr_info \<Rightarrow> GpuHashJoin \<Rightarrow> vartrans_info list" where
  "build_pseudo_scan_vartrans X ghjoin =
     (let context = collect_pscan_vars ghjoin
      in resolve_depths X 0 (outer_tlists ghjoin)
           (varlist context) (varrefs context) (resnums context))"

subsection \<open>The invariant of the collected references, and an example plan\<close>

text \<open>
  After the host pass and the device pass the three lists have one length, the
  numbers are 1, 2, ... in order, and exactly the first \<open>k\<close> entries carry the
  host bit.
\<close>

definition pscan_inv :: "nat \<Rightarrow> pscan_varlist_context \<Rightarrow> bool" where
  "pscan_inv k c \<longleftrightarrow>
     length (varlist c) = length (resnums c) \<and> length (varrefs c) = length (resnums c) \<and>
     resnums c = map int [1..<Suc (length (resnums c))] \<and> k \<le> length (resnums c) \<and>
     (\<forall>i<length (resnums c). (varrefs c ! i AND 1 \<noteq> 0) = (i < k))"

definition example_outer_tlist :: "TargetEntry list" where
  "example_outer_tlist =
     [\<lparr>expr = Var 1 1, resno = 1, resname = None\<rparr>,
      \<lparr>expr = Var 1 2, resno = 2, resname = None\<rparr>]"

definition example_inner_tlist :: "TargetEntry list" where
  "example_inner_tlist =
     [\<lparr>expr = Var 2 1, resno = 1, resname = None\<rparr>,
      \<lparr>expr = Var 2 2, resno = 2, resname = None\<rparr>]"

definition example_join :: GpuHashJoin where
  "example_join =
     \<lparr>targetlist = [\<lparr>expr = Var 2 2, resno = 1, resname = None\<rparr>,
                    \<lparr>expr = Var 1 2, resno = 2, resname = None\<rparr>],
      qual = [], hash_clauses = [Expr [Var 1 1, Var 2 1]], qual_clauses = [Expr [Var 1 2]],
      host_clauses = [], outer_tlists = [example_outer_tlist, example_inner_tlist]\<rparr>"

definition example_info :: expr_info where
  "example_info = \<lparr>exprType = (\<lambda>_. 23), exprTypmod = (\<lambda>_. - 1), exprCollation = (\<lambda>_. 0)\<rparr>"

section \<open>Building a hash table (multihash_preload_khashtable)\<close>

text \<open>
  A hash-key expression state, evaluated on the scanned tuple by \<open>ExecEvalExpr\<close>,
  yields a datum and the null flag.
\<close>

type_synonym ExprState = "HeapTuple \<Rightarrow> Datum \<times> bool"

text \<open>
  What the host database and the C layout fix and the source does not show is a
  parameter: \<open>crc_byte\<close> is the table-lookup step that \<open>COMP_CRC32\<close> of
  \<open>utils/pg_crc.h\<close> applies to one byte, \<open>datum_image\<close> the bytes of a Datum as
  they lie in memory, \<open>peek\<close> the memory a by-reference datum points into,
  \<open>vardata_any\<close> and \<open>varsize_any_exhdr\<close> the macros \<open>VARDATA_ANY\<close> and
  \<open>VARSIZE_ANY_EXHDR\<close>; \<open>hentry_head\<close> is \<open>offsetof(kern_hashentry, htup)\<close>,
  \<open>mhtables_head\<close> is \<open>offsetof(pgstrom_multihash_tables, kern)\<close>,
  \<open>khtable_head n\<close> is \<open>offsetof(kern_hashtable, colmeta[n])\<close> and
  \<open>khtable_slot n\<close> the offset \<open>KERN_HASHTABLE_SLOT\<close> gives the slot array of a
  table of \<open>n\<close> columns.
\<close>

record pg_abi =
  crc_byte :: "32 word \<Rightarrow> byte \<Rightarrow> 32 word"
  datum_image :: "Datum \<Rightarrow> byte list"
  peek :: "Datum \<Rightarrow> byte"
  vardata_any :: "Datum \<Rightarrow> Datum"
  varsize_any_exhdr :: "Datum \<Rightarrow> nat"
  hentry_head :: nat
  mhtables_head :: nat
  khtable_head :: "nat \<Rightarrow> nat"
  khtable_slot :: "nat \<Rightarrow> nat"

definition LONGALIGN :: "nat \<Rightarrow> nat" where
  "LONGALIGN len = ((len + 7) div 8) * 8"

definition INIT_CRC32 :: "32 word" where
  "INIT_CRC32 = 0xFFFFFFFF"

definition COMP_CRC32 :: "pg_abi \<Rightarrow> 32 word \<Rightarrow> byte list \<Rightarrow> 32 word" where
  "COMP_CRC32 A crc data = foldl (crc_byte A) crc data"

definition FIN_CRC32 :: "32 word \<Rightarrow> 32 word" where
  "FIN_CRC32 crc = crc XOR 0xFFFFFFFF"

definition fetch :: "pg_abi \<Rightarrow> Datum \<Rightarrow> nat \<Rightarrow> byte list" where
  "fetch A p n = map (\<lambda>i. peek A (p + of_nat i)) [0..<n]"

text \<open>
  The state of one MultiHash node. \<open>exceeds_threshold required len\<close> is the C
  test \<open>required > mhs->threshold_ratio * len\<close>, taken in double arithmetic.
  \<open>inner_hashtable_size\<close> holds \<open>hashtable_size\<close> of the MultiHash nodes down the
  \<open>innerPlanState\<close> chain, and \<open>outer_scan\<close> the tuples the outer plan has still
  to return to \<open>ExecProcNode\<close>.
\<close>

record MultiHashState =
  depth_mhs :: nat
  nslots_mhs :: cl_uint
  natts :: nat
  exceeds_threshold :: "nat \<Rightarrow> nat \<Rightarrow> bool"
  hashtable_size :: nat
  inner_hashtable_size :: "nat list"
  outer_overflow_mhs :: "HeapTuple option"
  outer_done_mhs :: bool
  curr_chunk :: "kern_hashtable option"
  hash_keys :: "ExprState list"
  hash_keylen :: "int list"
  hash_keybyval :: "bool list"
  outer_scan :: "HeapTuple list"

subsection \<open>The hash value of a row\<close>

text \<open>The \<open>forthree\<close> loop over the key expressions, their lengths and by-value flags.\<close>

fun comp_hash_keys :: "pg_abi \<Rightarrow> HeapTuple \<Rightarrow> ExprState list \<Rightarrow> int list \<Rightarrow> bool list
    \<Rightarrow> 32 word \<Rightarrow> 32 word" where
  "comp_hash_keys A slot (clause # lc1) (keylen # lc2) (keybyval # lc3) crc =
     (case clause slot of
        (val, isnull) \<Rightarrow>
          if isnull then comp_hash_keys A slot lc1 lc2 lc3 crc
          else if keylen > 0 then
            (if keybyval
             then comp_hash_keys A slot lc1 lc2 lc3
                    (COMP_CRC32 A crc (take (nat keylen) (datum_image A val)))
             else comp_hash_keys A slot lc1 lc2 lc3
                    (COMP_CRC32 A crc (fetch A val (nat keylen))))
          else comp_hash_keys A slot lc1 lc2 lc3
                 (COMP_CRC32 A crc (fetch A (vardata_any A val) (varsize_any_exhdr A val))))"
| "comp_hash_keys A slot lc1 lc2 lc3 crc = crc"

definition hash_of_row :: "pg_abi \<Rightarrow> MultiHashState \<Rightarrow> HeapTuple \<Rightarrow> 32 word" where
  "hash_of_row A mhs slot =
     FIN_CRC32 (comp_hash_keys A slot (hash_keys mhs) (hash_keylen mhs) (hash_keybyval mhs)
                  INIT_CRC32)"

text \<open>
  The claim's wording of the bytes one key feeds to the CRC, to compare the loop
  with: nothing for a null key, the first \<open>keylen\<close> bytes of the value for a
  fixed-length by-value key, \<open>keylen\<close> bytes at the pointer for a fixed-length
  by-reference key, and the payload without its length header for a
  variable-length key.
\<close>

definition key_bytes :: "pg_abi \<Rightarrow> HeapTuple \<Rightarrow> ExprState \<times> int \<times> bool \<Rightarrow> byte list" where
  "key_bytes A slot k =
     (case k of (clause, keylen, keybyval) \<Rightarrow>
        (case clause slot of (val, isnull) \<Rightarrow>
           if isnull then []
           else if keylen > 0 \<and> keybyval then take (nat keylen) (datum_image A val)
           else if keylen > 0 then fetch A val (nat keylen)
           else fetch A (vardata_any A val) (varsize_any_exhdr A val)))"

definition row_key_bytes :: "pg_abi \<Rightarrow> MultiHashState \<Rightarrow> HeapTuple \<Rightarrow> byte list" where
  "row_key_bytes A mhs slot =
     concat (map (key_bytes A slot)
               (zip (hash_keys mhs) (zip (hash_keylen mhs) (hash_keybyval mhs))))"

text \<open>A list without its element at one position.\<close>

definition drop_nth :: "nat \<Rightarrow> 'a list \<Rightarrow> 'a list" where
  "drop_nth i xs = take i xs @ drop (Suc i) xs"

definition without_key :: "nat \<Rightarrow> MultiHashState \<Rightarrow> MultiHashState" where
  "without_key i mhs =
     mhs\<lparr>hash_keys := drop_nth i (hash_keys mhs),
         hash_keylen := drop_nth i (hash_keylen mhs),
         hash_keybyval := drop_nth i (hash_keybyval mhs)\<rparr>"

subsection \<open>Growing the buffer (expand_multihash_tables)\<close>

text \<open>
  The state of the preload while it runs: the node, the buffer \<open>*p_mhtables\<close>,
  the table under construction at the buffer's usage mark, the bytes it has
  consumed, the local tuple count, and the script of the results of the coming
  calls of \<open>pgstrom_shmem_alloc_alap\<close> (\<open>Some allocated\<close>, or \<open>None\<close> for NULL;
  past its end the shared memory is exhausted).
\<close>

record preload_state =
  mhs :: MultiHashState
  mhtables_p :: pgstrom_multihash_tables
  khtable :: kern_hashtable
  consumed :: nat
  ntuples_l :: cl_uint
  shmem :: "nat option list"

datatype preload_error =
    NoMoreExpandable
  | NoCurrentChunk
  | DivisionByZero

text \<open>
  The new buffer is a byte copy of the old one, so only its length differs; the
  old one is put. The node and every MultiHash node below it get the new size.
\<close>

definition expand_multihash_tables :: "pg_abi \<Rightarrow> preload_state \<Rightarrow> bool \<times> preload_state" where
  "expand_multihash_tables A s =
     (case shmem s of
        Some allocated # rest \<Rightarrow>
          (True,
           s\<lparr>shmem := rest,
             mhtables_p := (mhtables_p s)\<lparr>length_mh := allocated - mhtables_head A\<rparr>,
             mhs := (mhs s)\<lparr>hashtable_size := allocated,
                            inner_hashtable_size :=
                              map (\<lambda>_. allocated) (inner_hashtable_size (mhs s))\<rparr>\<rparr>)
      | None # rest \<Rightarrow> (False, s\<lparr>shmem := rest\<rparr>)
      | [] \<Rightarrow> (False, s))"

subsection \<open>The scan loop\<close>

definition entry_size :: "pg_abi \<Rightarrow> HeapTuple \<Rightarrow> nat" where
  "entry_size A scan_tuple = LONGALIGN (hentry_head A + length scan_tuple)"

text \<open>
  \<open>while (required > threshold_ratio * length)\<close> inside the scan loop: \<open>None\<close>
  when an expansion fails, with the state as the failed call left it.
\<close>

function acquire_space :: "pg_abi \<Rightarrow> nat \<Rightarrow> preload_state \<Rightarrow> preload_state + preload_state"
  where
  "acquire_space A required s =
     (if exceeds_threshold (mhs s) required (length_mh (mhtables_p s))
      then (case expand_multihash_tables A s of
              (False, s') \<Rightarrow> Inl s'
            | (True, s') \<Rightarrow> acquire_space A required s')
      else Inr s)"
  by pat_completeness auto
termination
  by (relation "measure (\<lambda>(A, required, s). length (shmem s))")
    (auto simp: expand_multihash_tables_def split: list.splits option.splits)

declare acquire_space.simps [simp del]

text \<open>
  Allocation of the hash entry and its insertion. \<open>hash % nslots\<close> traps when the
  table has no slot.
\<close>

definition insert_entry :: "pg_abi \<Rightarrow> HeapTuple \<Rightarrow> preload_state
    \<Rightarrow> preload_error + preload_state" where
  "insert_entry A scan_tuple s =
     (let kh = khtable s;
          crc = hash_of_row A (mhs s) scan_tuple
      in if nslots kh = 0 then Inl DivisionByZero
         else
           let i = unat (crc mod nslots kh);
               hentry = \<lparr>hash = crc, next = hash_slots kh ! i, rowid = ntuples_l s,
                         t_len = of_nat (length scan_tuple), htup = scan_tuple\<rparr>
           in Inr (s\<lparr>khtable := kh\<lparr>hentries := (hentries kh)(consumed s \<mapsto> hentry),
                                    hash_slots := (hash_slots kh)[i := of_nat (consumed s)]\<rparr>,
                      consumed := consumed s + entry_size A scan_tuple,
                      ntuples_l := ntuples_l s + 1\<rparr>))"

text \<open>The next slot to load: the stashed tuple if there is one, else the outer plan's.\<close>

definition next_slot :: "preload_state \<Rightarrow> HeapTuple option \<times> preload_state" where
  "next_slot s =
     (case outer_overflow_mhs (mhs s) of
        Some slot \<Rightarrow> (Some slot, s\<lparr>mhs := (mhs s)\<lparr>outer_overflow_mhs := None\<rparr>\<rparr>)
      | None \<Rightarrow>
          (case outer_scan (mhs s) of
             [] \<Rightarrow> (None, s)
           | slot # rest \<Rightarrow> (Some slot, s\<lparr>mhs := (mhs s)\<lparr>outer_scan := rest\<rparr>\<rparr>)))"






text \<open>
  One turn of the loop \<open>while (true)\<close> that fills the table, with the way it
  leaves the turn: on to the next turn, out by \<open>break\<close> when the outer plan is
  exhausted (\<open>outer_done\<close> is set), out by \<open>goto out\<close> at a failed expansion with
  the tuple in hand stashed in \<open>outer_overflow\<close>, or out by a trap.
\<close>

datatype scan_turn =
    Continue preload_state
  | Break preload_state
  | GotoOut preload_state
  | Trap preload_error

definition scan_body :: "pg_abi \<Rightarrow> preload_state \<Rightarrow> scan_turn" where
  "scan_body A s =
     (case next_slot s of
        (None, s1) \<Rightarrow> Break (s1\<lparr>mhs := (mhs s1)\<lparr>outer_done_mhs := True\<rparr>\<rparr>)
      | (Some scan_tuple, s1) \<Rightarrow>
          (case acquire_space A
                  (usage (mhtables_p s1) + consumed s1 + entry_size A scan_tuple) s1 of
             Inl s2 \<Rightarrow> GotoOut (s2\<lparr>mhs := (mhs s2)\<lparr>outer_overflow_mhs := Some scan_tuple\<rparr>\<rparr>)
           | Inr s2 \<Rightarrow>
               (case insert_entry A scan_tuple s2 of
                  Inl e \<Rightarrow> Trap e
                | Inr s3 \<Rightarrow> Continue s3)))"





subsection \<open>The whole preload\<close>





definition new_khtable :: "MultiHashState \<Rightarrow> kern_hashtable" where
  "new_khtable node =
     \<lparr>length_ht = 0, ncols = of_nat (natts node), nslots = nslots_mhs node, is_outer = False,
      hash_slots = replicate (unat (nslots_mhs node)) 0, hentries = Map.empty\<rparr>"







subsection \<open>Walking a bucket chain\<close>



subsection \<open>Well-formed tables under construction, and an example node\<close>

text \<open>
  Every slot head and every chain link is 0 or the offset of an entry of the
  table; the slot array has \<open>nslots\<close> elements; the entries lie below the
  consumption mark, which is past the table's head.
\<close>

definition links_closed :: "kern_hashtable \<Rightarrow> bool" where
  "links_closed kh \<longleftrightarrow>
     (\<forall>off\<in>set (hash_slots kh). off = 0 \<or> unat off \<in> dom (hentries kh)) \<and>
     (\<forall>e\<in>ran (hentries kh). next e = 0 \<or> unat (next e) \<in> dom (hentries kh))"

definition table_ok :: "preload_state \<Rightarrow> bool" where
  "table_ok s \<longleftrightarrow>
     links_closed (khtable s) \<and>
     length (hash_slots (khtable s)) = unat (nslots (khtable s)) \<and>
     0 < consumed s \<and>
     (\<forall>off\<in>dom (hentries (khtable s)). off < consumed s)"

definition slot_index :: "pg_abi \<Rightarrow> HeapTuple \<Rightarrow> preload_state \<Rightarrow> nat" where
  "slot_index A scan_tuple s = unat (hash_of_row A (mhs s) scan_tuple mod nslots (khtable s))"

text \<open>
  An instance of the parameters: a toy byte step in place of the CRC table, the
  little-endian image of a datum, and a layout with 16-byte entry heads.
\<close>

definition example_abi :: pg_abi where
  "example_abi =
     \<lparr>crc_byte = (\<lambda>crc b. push_bit 8 crc XOR ucast b),
      datum_image = (\<lambda>d. [ucast d, ucast (drop_bit 8 d), ucast (drop_bit 16 d),
                           ucast (drop_bit 24 d), ucast (drop_bit 32 d),
                           ucast (drop_bit 40 d), ucast (drop_bit 48 d),
                           ucast (drop_bit 56 d)]),
      peek = (\<lambda>_. 0), vardata_any = (\<lambda>p. p + 4), varsize_any_exhdr = (\<lambda>_. 0),
      hentry_head = 16, mhtables_head = 64, khtable_head = (\<lambda>n. 16 + 12 * n),
      khtable_slot = (\<lambda>n. 16 + 12 * n)\<rparr>"

definition first_byte_key :: ExprState where
  "first_byte_key scan_tuple = (case scan_tuple of [] \<Rightarrow> (0, True) | b # _ \<Rightarrow> (ucast b, False))"

definition null_key :: ExprState where
  "null_key scan_tuple = (0, True)"

text \<open>
  A node over three two-byte tuples, hashing the first byte and a key that is
  always null, with four slots and the threshold ratio 3/4.
\<close>

definition example_node :: MultiHashState where
  "example_node =
     \<lparr>depth_mhs = 1, nslots_mhs = 4, natts = 2,
      exceeds_threshold = (\<lambda>required len. 3 * len < 4 * required),
      hashtable_size = 304, inner_hashtable_size = [],
      outer_overflow_mhs = None, outer_done_mhs = False, curr_chunk = None,
      hash_keys = [first_byte_key, null_key], hash_keylen = [1, 4],
      hash_keybyval = [True, True], outer_scan = [[5, 1], [6, 2], [9, 3]]\<rparr>"

definition small_tables :: pgstrom_multihash_tables where
  "small_tables = fresh_tables\<lparr>length_mh := 240\<rparr>"

text \<open>The state at the head of the scan loop of that node on that buffer.\<close>

definition example_scan :: preload_state where
  "example_scan =
     \<lparr>mhs = example_node,
      mhtables_p = small_tables\<lparr>htable_offset := (htable_offset small_tables)(1 := 64)\<rparr>,
      khtable = new_khtable example_node, consumed = 56, ntuples_l = 0, shmem = []\<rparr>"

section \<open>The OpenCL server side of a session\<close>

datatype mem_object = M_hash | M_join | M_dstore | M_ktoast | M_rowmap | M_kresult

datatype kernel_fn =
    kern_gpuhashjoin_main
  | kern_gpuhashjoin_projection_slot
  | kern_gpuhashjoin_projection_row

text \<open>
  The calls the server makes, as its log records them. \<open>host_calloc\<close> is the
  allocation of the session's state object.
\<close>

datatype cl_call =
    host_calloc
  | clCreateBuffer mem_object
  | clEnqueueWriteBuffer mem_object
  | clEnqueueReadBuffer mem_object
  | clserv_dmasend_data_store
  | clCreateKernel kernel_fn
  | clserv_compute_workgroup_size kernel_fn
  | clSetKernelArg kernel_fn nat
  | clEnqueueNDRangeKernel kernel_fn
  | clSetEventCallback
  | clRetainMemObject
  | clRetainEvent
  | clWaitForEvents
  | clReleaseEvent nat
  | clReleaseMemObject mem_object
  | clReleaseKernel kernel_fn
  | clReleaseProgram
  | pgstrom_reply_message
  | pgstrom_enqueue_message

datatype program_lookup = ProgramBuilding | BAD_OPENCL_PROGRAM | ProgramReady

text \<open>
  The state object of one submission (clstate_gpuhashjoin): the handle of the
  hash buffer on the device, the events in the order of \<open>events[]\<close>, and the
  memory objects and kernels it holds.
\<close>

record clstate_gpuhashjoin =
  m_hash_cl :: "nat option"
  events :: "nat option list"
  hash_loader :: bool
  ev_kern_main :: nat
  ev_kern_proj :: nat
  objects :: "mem_object list"
  kernels :: "kernel_fn list"

text \<open>
  The server and what surrounds it: the shared buffer \<open>hjtable\<close>; the scripts of
  the status codes of the coming OpenCL calls (\<open>CL_SUCCESS\<close>, 0, past the end),
  of the coming program lookups (ready past the end), of the completion status
  of the coming callbacks (\<open>True\<close> for \<open>CL_COMPLETE\<close>, also past the end) and of
  the coming \<open>pgstrom_shmem_alloc\<close> calls (success past the end); a counter for
  fresh OpenCL handles; and the log.
\<close>

record clserv =
  hjtable :: pgstrom_multihash_tables
  cl_rc :: "int list"
  programs :: "program_lookup list"
  ev_status :: "bool list"
  shmem_alloc :: "bool list"
  handles :: nat
  cl_log :: "cl_call list"

definition CL_OUT_OF_HOST_MEMORY :: int where
  "CL_OUT_OF_HOST_MEMORY = - 6"

definition CL_BUILD_PROGRAM_FAILURE :: int where
  "CL_BUILD_PROGRAM_FAILURE = - 11"

definition errcode_of_rc :: "int \<Rightarrow> strom_error" where
  "errcode_of_rc rc = (if rc = 0 then StromError_Success else CL_Error rc)"

definition note_call :: "cl_call \<Rightarrow> clserv \<Rightarrow> clserv" where
  "note_call c w = w\<lparr>cl_log := cl_log w @ [c]\<rparr>"

definition note_calls :: "cl_call list \<Rightarrow> clserv \<Rightarrow> clserv" where
  "note_calls cs w = w\<lparr>cl_log := cl_log w @ cs\<rparr>"

text \<open>A call that can fail: it is logged and takes the next status of the script.\<close>

definition issue :: "cl_call \<Rightarrow> clserv \<Rightarrow> int \<times> clserv" where
  "issue c w =
     (case cl_rc w of
        [] \<Rightarrow> (0, note_call c w)
      | rc # rest \<Rightarrow> (rc, (note_call c w)\<lparr>cl_rc := rest\<rparr>))"

definition fresh_handle :: "clserv \<Rightarrow> nat \<times> clserv" where
  "fresh_handle w = (handles w, w\<lparr>handles := Suc (handles w)\<rparr>)"

definition lookup_program :: "clserv \<Rightarrow> program_lookup \<times> clserv" where
  "lookup_program w =
     (case programs w of
        [] \<Rightarrow> (ProgramReady, w)
      | p # rest \<Rightarrow> (p, w\<lparr>programs := rest\<rparr>))"


definition pgstrom_shmem_alloc :: "clserv \<Rightarrow> bool \<times> clserv" where
  "pgstrom_shmem_alloc w =
     (case shmem_alloc w of
        [] \<Rightarrow> (True, w)
      | b # rest \<Rightarrow> (b, w\<lparr>shmem_alloc := rest\<rparr>))"

subsection \<open>The hash buffer on the device\<close>

text \<open>
  The section of \<open>clserv_process_gpuhashjoin\<close> under the buffer's spinlock. A
  session that finds \<open>n_kernel == 0\<close> creates the device buffer and enqueues the
  write of the hash tables, publishing the buffer and the write's event; any
  other retains both and takes the event as its first. A status: the call that
  failed, with the lock released and \<open>n_kernel\<close> as it was.
\<close>

definition acquire_hash_table :: "clstate_gpuhashjoin \<Rightarrow> clserv
    \<Rightarrow> int option \<times> clstate_gpuhashjoin \<times> clserv" where
  "acquire_hash_table clghj w =
     (let mht = hjtable w
      in if n_kernel mht = 0
         then (case issue (clCreateBuffer M_hash) w of
                 (rc, w1) \<Rightarrow>
                   if rc \<noteq> 0 then (Some rc, clghj, w1)
                   else (case fresh_handle w1 of
                           (mem, w2) \<Rightarrow>
                             (case issue (clEnqueueWriteBuffer M_hash) w2 of
                                (rc, w3) \<Rightarrow>
                                  if rc \<noteq> 0
                                  then (Some rc, clghj,
                                        note_call (clReleaseMemObject M_hash) w3)
                                  else (case fresh_handle w3 of
                                          (ev, w4) \<Rightarrow>
                                            (None,
                                             clghj\<lparr>m_hash_cl := Some mem,
                                                   events := events clghj @ [Some ev],
                                                   hash_loader := True\<rparr>,
                                             w4\<lparr>hjtable :=
                                                  mht\<lparr>m_hash := Some mem, ev_hash := Some ev,
                                                      n_kernel := n_kernel mht + 1\<rparr>\<rparr>)))))
         else (None,
               clghj\<lparr>m_hash_cl := m_hash mht, events := events clghj @ [ev_hash mht]\<rparr>,
               (note_calls [clRetainMemObject, clRetainEvent] w)
                 \<lparr>hjtable := mht\<lparr>n_kernel := n_kernel mht + 1\<rparr>\<rparr>))"

text \<open>
  The unloading of the buffer, under the lock, in the callback and on the error
  path: the session's references go, and the last session out clears the
  published handles.
\<close>

definition release_hash_table :: "clserv \<Rightarrow> clserv" where
  "release_hash_table w =
     (let mht = hjtable w;
          w1 = note_calls [clReleaseMemObject M_hash, clReleaseEvent 0] w
      in if n_kernel mht - 1 = 0
         then w1\<lparr>hjtable := mht\<lparr>n_kernel := n_kernel mht - 1, m_hash := None, ev_hash := None\<rparr>\<rparr>
         else w1\<lparr>hjtable := mht\<lparr>n_kernel := n_kernel mht - 1\<rparr>\<rparr>)"

subsection \<open>clserv_process_gpuhashjoin\<close>

text \<open>
  Calls made one after the other, each followed by \<open>if (rc != CL_SUCCESS) goto
  error\<close>. A call that succeeds leaves its object, kernel or event in the state
  object. The status to report at a failure is the call's, except that a failed
  \<open>clserv_compute_workgroup_size\<close> leaves \<open>rc\<close> as the last successful call set
  it.
\<close>

definition keep_result :: "cl_call \<Rightarrow> clstate_gpuhashjoin \<Rightarrow> clserv
    \<Rightarrow> clstate_gpuhashjoin \<times> clserv" where
  "keep_result c clghj w =
     (case c of
        clCreateBuffer mem \<Rightarrow> (clghj\<lparr>objects := objects clghj @ [mem]\<rparr>, w)
      | clCreateKernel kern \<Rightarrow> (clghj\<lparr>kernels := kernels clghj @ [kern]\<rparr>, w)
      | clEnqueueWriteBuffer mem \<Rightarrow>
          (clghj\<lparr>events := events clghj @ [Some (handles w)]\<rparr>, snd (fresh_handle w))
      | clEnqueueReadBuffer mem \<Rightarrow>
          (clghj\<lparr>events := events clghj @ [Some (handles w)]\<rparr>, snd (fresh_handle w))
      | clserv_dmasend_data_store \<Rightarrow>
          (clghj\<lparr>events := events clghj @ [Some (handles w)]\<rparr>, snd (fresh_handle w))
      | clEnqueueNDRangeKernel kern \<Rightarrow>
          ((if kern = kern_gpuhashjoin_main
            then clghj\<lparr>ev_kern_main := length (events clghj)\<rparr>
            else clghj\<lparr>ev_kern_proj := length (events clghj)\<rparr>)
             \<lparr>events := events clghj @ [Some (handles w)]\<rparr>,
           snd (fresh_handle w))
      | _ \<Rightarrow> (clghj, w))"

definition reported_rc :: "cl_call \<Rightarrow> int \<Rightarrow> int" where
  "reported_rc c rc = (case c of clserv_compute_workgroup_size kern \<Rightarrow> 0 | _ \<Rightarrow> rc)"

fun run_calls :: "cl_call list \<Rightarrow> clstate_gpuhashjoin \<Rightarrow> clserv
    \<Rightarrow> int option \<times> clstate_gpuhashjoin \<times> clserv" where
  "run_calls [] clghj w = (None, clghj, w)"
| "run_calls (c # cs) clghj w =
     (case issue c w of
        (rc, w1) \<Rightarrow>
          if rc \<noteq> 0 then (Some (reported_rc c rc), clghj, w1)
          else (case keep_result c clghj w1 of (clghj', w2) \<Rightarrow> run_calls cs clghj' w2))"

text \<open>
  Everything the function does after it has chosen the projection kernel, in
  order: the kernel and the device buffers, the transfers to the device, the
  launch of the join kernel, the launch of the projection kernel, the two
  transfers back, and the callback.
\<close>

definition submission_calls :: "pgstrom_gpuhashjoin \<Rightarrow> bool \<Rightarrow> kernel_fn \<Rightarrow> cl_call list" where
  "submission_calls gpuhashjoin has_ktoast kern_proj =
     [clCreateKernel kern_proj, clCreateBuffer M_join, clCreateBuffer M_dstore]
     @ (if has_ktoast then [clCreateBuffer M_ktoast] else [])
     @ (if nvalids gpuhashjoin < 0 then [] else [clCreateBuffer M_rowmap])
     @ [clCreateBuffer M_kresult, clEnqueueWriteBuffer M_join]
     @ (if nvalids gpuhashjoin < 0 then [] else [clEnqueueWriteBuffer M_rowmap])
     @ [clserv_dmasend_data_store, clEnqueueWriteBuffer M_kresult,
        clserv_compute_workgroup_size kern_gpuhashjoin_main,
        clSetKernelArg kern_gpuhashjoin_main 0, clSetKernelArg kern_gpuhashjoin_main 1,
        clSetKernelArg kern_gpuhashjoin_main 2, clSetKernelArg kern_gpuhashjoin_main 3,
        clSetKernelArg kern_gpuhashjoin_main 4, clSetKernelArg kern_gpuhashjoin_main 5,
        clEnqueueNDRangeKernel kern_gpuhashjoin_main,
        clserv_compute_workgroup_size kern_proj,
        clSetKernelArg kern_proj 0, clSetKernelArg kern_proj 1, clSetKernelArg kern_proj 2,
        clSetKernelArg kern_proj 3, clSetKernelArg kern_proj 4, clSetKernelArg kern_proj 5,
        clEnqueueNDRangeKernel kern_proj,
        clEnqueueReadBuffer M_join, clEnqueueReadBuffer M_kresult,
        clSetEventCallback]"

datatype process_result =
    Parked
  | Replied pgstrom_gpuhashjoin
  | Submitted clstate_gpuhashjoin

text \<open>
  The label \<open>error\<close>: the events but the first, the memory objects and the
  kernels are released, the hash buffer is unloaded if the session had taken it,
  and the message is replied with the status in its error code.
\<close>

definition process_error :: "pgstrom_gpuhashjoin \<Rightarrow> int \<Rightarrow> clstate_gpuhashjoin \<Rightarrow> clserv
    \<Rightarrow> process_result \<times> clserv" where
  "process_error gpuhashjoin rc clghj w =
     (let w1 = (if events clghj = [] then w
                else note_calls (clWaitForEvents
                                 # map clReleaseEvent (rev [1..<length (events clghj)])) w);
          w2 = note_calls (map clReleaseMemObject
                             (filter (\<lambda>mem. mem \<in> set (objects clghj))
                                [M_kresult, M_ktoast, M_dstore, M_join])) w1;
          w3 = (if m_hash_cl clghj \<noteq> None then release_hash_table w2 else w2);
          w4 = note_calls (map clReleaseKernel (kernels clghj) @ [clReleaseProgram]) w3
      in (Replied (gpuhashjoin\<lparr>msg_errcode := errcode_of_rc rc\<rparr>),
          note_call pgstrom_reply_message w4))"

definition new_clstate :: clstate_gpuhashjoin where
  "new_clstate =
     \<lparr>m_hash_cl = None, events = [], hash_loader = False, ev_kern_main = 0,
      ev_kern_proj = 0, objects = [], kernels = []\<rparr>"

definition clserv_process_gpuhashjoin :: "bool \<Rightarrow> pgstrom_gpuhashjoin \<Rightarrow> clserv
    \<Rightarrow> process_result \<times> clserv" where
  "clserv_process_gpuhashjoin has_ktoast gpuhashjoin w =
     (case issue host_calloc w of
        (rc0, w0) \<Rightarrow>
          if rc0 \<noteq> 0
          then (Replied (gpuhashjoin\<lparr>msg_errcode := errcode_of_rc CL_OUT_OF_HOST_MEMORY\<rparr>),
                note_call pgstrom_reply_message w0)
          else (case lookup_program w0 of
                  (ProgramBuilding, w1) \<Rightarrow> (Parked, w1)
                | (BAD_OPENCL_PROGRAM, w1) \<Rightarrow>
                    (Replied (gpuhashjoin\<lparr>msg_errcode := errcode_of_rc CL_BUILD_PROGRAM_FAILURE\<rparr>),
                     note_call pgstrom_reply_message w1)
                | (ProgramReady, w1) \<Rightarrow>
                    (case acquire_hash_table new_clstate w1 of
                       (Some rc, clghj, w2) \<Rightarrow> process_error gpuhashjoin rc clghj w2
                     | (None, clghj, w2) \<Rightarrow>
                         (case run_calls [clCreateKernel kern_gpuhashjoin_main] clghj w2 of
                            (Some rc, clghj3, w3) \<Rightarrow> process_error gpuhashjoin rc clghj3 w3
                          | (None, clghj3, w3) \<Rightarrow>
                              (case (if format (pds_dest gpuhashjoin) = KDS_FORMAT_TUPSLOT
                                     then Some kern_gpuhashjoin_projection_slot
                                     else if format (pds_dest gpuhashjoin) = KDS_FORMAT_ROW_FLAT
                                     then Some kern_gpuhashjoin_projection_row
                                     else None) of
                                 None \<Rightarrow> process_error gpuhashjoin 0 clghj3 w3
                               | Some kern_proj \<Rightarrow>
                                   (case run_calls
                                           (submission_calls gpuhashjoin has_ktoast kern_proj)
                                           clghj3 w3 of
                                      (Some rc, clghj4, w4) \<Rightarrow>
                                        process_error gpuhashjoin rc clghj4 w4
                                    | (None, clghj4, w4) \<Rightarrow> (Submitted clghj4, w4)))))))"

subsection \<open>clserv_respond_hashjoin\<close>

text \<open>
  The layout the callback computes sizes with, outside the sources: the macro
  \<open>STROMALIGN\<close>, \<open>offsetof(kern_data_store, colmeta[n])\<close>, and the sizes of
  \<open>kern_blkitem\<close> and \<open>kern_rowitem\<close>. A Datum has 8 bytes and a bool 1.
\<close>

record kds_layout =
  STROMALIGN :: "nat \<Rightarrow> nat"
  kds_head :: "nat \<Rightarrow> nat"
  sizeof_blkitem :: nat
  sizeof_rowitem :: nat

datatype respond_result =
    Reply pgstrom_gpuhashjoin
  | Retry pgstrom_gpuhashjoin

text \<open>
  The release of what the submission held, and the unloading of the hash buffer.
  The collection of performance counters that precedes it in the callback
  (\<open>msg.pfm\<close>) reads event timestamps only and is left out.
\<close>

definition release_submission :: "clstate_gpuhashjoin \<Rightarrow> clserv \<Rightarrow> clserv" where
  "release_submission clghj w =
     release_hash_table
       (note_calls
          (map clReleaseEvent (rev [1..<length (events clghj)])
           @ map clReleaseMemObject
               (filter (\<lambda>mem. mem \<in> set (objects clghj))
                  [M_kresult, M_rowmap, M_ktoast, M_dstore, M_join])
           @ map clReleaseKernel (kernels clghj) @ [clReleaseProgram]) w)"

text \<open>
  The answer to \<open>StromError_DataStoreNoSpace\<close>: the result buffer gets the row
  count the destination store came back with as its room count, a new
  destination store is allocated for that count, and the message is enqueued
  again. \<open>None\<close>: the store has neither of the two result formats.
\<close>

definition enlarged_store :: "kds_layout \<Rightarrow> kern_data_store \<Rightarrow> kern_data_store option" where
  "enlarged_store L old_kds =
     (let n = unat (ncols_kds old_kds);
          rows = unat (nitems_kds old_kds);
          head_len = STROMALIGN L (kds_head L n)
      in if format old_kds = KDS_FORMAT_TUPSLOT
         then Some (old_kds
                \<lparr>length_kds := STROMALIGN L (head_len + (LONGALIGN (8 * n) + LONGALIGN n) * rows),
                 usage_kds := 0, nrooms_kds := nitems_kds old_kds, nitems_kds := 0\<rparr>)
         else if format old_kds = KDS_FORMAT_ROW_FLAT
         then (let required = head_len + STROMALIGN L (sizeof_blkitem L * maxblocks old_kds)
                                + STROMALIGN L (sizeof_rowitem L * rows)
                                + STROMALIGN L (usage_kds old_kds)
               in Some (old_kds
                     \<lparr>length_kds := required, usage_kds := 0,
                      nrooms_kds := of_nat ((required - head_len) div sizeof_rowitem L),
                      nitems_kds := 0\<rparr>))
         else None)"

definition retry_with_larger_buffer :: "kds_layout \<Rightarrow> pgstrom_gpuhashjoin \<Rightarrow> clserv
    \<Rightarrow> respond_result \<times> clserv" where
  "retry_with_larger_buffer L gpuhashjoin w =
     (let old_kds = pds_dest gpuhashjoin;
          gj = gpuhashjoin
                 \<lparr>kresults := (kresults gpuhashjoin)
                    \<lparr>nrooms := nitems_kds old_kds, nitems := 0, errcode := StromError_Success\<rparr>\<rparr>
      in case enlarged_store L old_kds of
           None \<Rightarrow>
             (Reply (gj\<lparr>msg_errcode := StromError_DataStoreCorruption\<rparr>),
              note_call pgstrom_reply_message w)
         | Some new_kds \<Rightarrow>
             (case pgstrom_shmem_alloc w of
                (False, w1) \<Rightarrow>
                  (Reply (gj\<lparr>msg_errcode := StromError_OutOfSharedMemory\<rparr>),
                   note_call pgstrom_reply_message w1)
              | (True, w1) \<Rightarrow>
                  (case pgstrom_shmem_alloc w1 of
                     (False, w2) \<Rightarrow>
                       (Reply (gj\<lparr>msg_errcode := StromError_OutOfSharedMemory\<rparr>),
                        note_call pgstrom_reply_message w2)
                   | (True, w2) \<Rightarrow>
                       (Retry (gj\<lparr>pds_dest := new_kds\<rparr>),
                        note_call pgstrom_enqueue_message w2))))"

definition clserv_respond_hashjoin :: "kds_layout \<Rightarrow> clstate_gpuhashjoin \<Rightarrow> bool
    \<Rightarrow> pgstrom_gpuhashjoin \<Rightarrow> clserv \<Rightarrow> respond_result \<times> clserv" where
  "clserv_respond_hashjoin L clghj complete gpuhashjoin w =
     (let gj = gpuhashjoin
                 \<lparr>msg_errcode := (if complete then errcode (kresults gpuhashjoin)
                                  else StromError_OpenCLInternal)\<rparr>;
          w1 = release_submission clghj w
      in if msg_errcode gj = StromError_DataStoreNoSpace
         then retry_with_larger_buffer L gj w1
         else (Reply gj, note_call pgstrom_reply_message w1))"

subsection \<open>The device, and a session from submission to reply\<close>







subsection \<open>Runs in which every call succeeds, and example sessions\<close>

text \<open>
  A server whose scripted calls all succeed, whose programs are built and whose
  callbacks all see completion.
\<close>

definition all_succeed :: "clserv \<Rightarrow> bool" where
  "all_succeed w \<longleftrightarrow> cl_rc w = [] \<and> programs w = [] \<and> ev_status w = []"

text \<open>
  The events a submission appended to those it started with are fresh handles of
  the server.
\<close>

definition fresh_events :: "nat \<Rightarrow> nat option list \<Rightarrow> bool" where
  "fresh_events low evs \<longleftrightarrow> (\<forall>e\<in>set evs. \<exists>h. e = Some h \<and> low \<le> h)"


definition proj_kernel_of :: "pgstrom_gpuhashjoin \<Rightarrow> kernel_fn" where
  "proj_kernel_of gpuhashjoin =
     (if format (pds_dest gpuhashjoin) = KDS_FORMAT_TUPSLOT
      then kern_gpuhashjoin_projection_slot else kern_gpuhashjoin_projection_row)"

definition has_result_format :: "pgstrom_gpuhashjoin \<Rightarrow> bool" where
  "has_result_format gpuhashjoin \<longleftrightarrow>
     format (pds_dest gpuhashjoin) = KDS_FORMAT_TUPSLOT
     \<or> format (pds_dest gpuhashjoin) = KDS_FORMAT_ROW_FLAT"

text \<open>The calls of the server since its log had the length \<open>n\<close>.\<close>

definition calls_since :: "nat \<Rightarrow> clserv \<Rightarrow> cl_call list" where
  "calls_since n w = drop n (cl_log w)"





definition example_layout :: kds_layout where
  "example_layout =
     \<lparr>STROMALIGN = (\<lambda>n. ((n + 15) div 16) * 16), kds_head = (\<lambda>n. 64 + 16 * n),
      sizeof_blkitem = 16, sizeof_rowitem = 8\<rparr>"

definition fresh_server :: clserv where
  "fresh_server =
     \<lparr>hjtable = fresh_tables, cl_rc = [], programs = [], ev_status = [], shmem_alloc = [],
      handles = 1, cl_log = []\<rparr>"

text \<open>A session of two outer rows with two rooms, and a join that yields five rows.\<close>

definition example_session :: pgstrom_gpuhashjoin where
  "example_session =
     \<lparr>msg_errcode = StromError_Success, pds = [[1, 7], [2, 8]], nvalids = - 1,
      kresults = \<lparr>nrels = 2, nrooms = 2, nitems = 0, errcode = StromError_Success\<rparr>,
      pds_dest = plain_dest KDS_FORMAT_TUPSLOT 2\<rparr>"


text \<open>
  The example session as it comes back from a device that found five rows for
  its two rooms, and a server in which one session holds the hash buffer.
\<close>

definition overflowed_session :: pgstrom_gpuhashjoin where
  "overflowed_session =
     example_session
       \<lparr>kresults := \<lparr>nrels = 2, nrooms = 2, nitems = 5, errcode = StromError_DataStoreNoSpace\<rparr>,
        pds_dest := (plain_dest KDS_FORMAT_TUPSLOT 2)\<lparr>nitems_kds := 5\<rparr>\<rparr>"

definition serving_server :: clserv where
  "serving_server =
     fresh_server
       \<lparr>hjtable := fresh_tables\<lparr>m_hash := Some 1, ev_hash := Some 2, n_kernel := 1\<rparr>,
        handles := 12\<rparr>"


chapter \<open>Properties\<close>

section \<open>Rescan of the join node\<close>

text \<open>
  C1. The claim: on rescan, a buffer that is not divided is kept when the inner
  plan has no changed parameter (chgParam NULL), and released otherwise. The
  source tests \<open>is_divided || chgParam == NULL\<close>: at an undivided buffer with
  chgParam NULL the rescan rescans the inner plan, releases the buffer and clears
  the pointer, and with a changed parameter it keeps the buffer.
\<close>

theorem rescan_releases_unchanged_inner:
  "map_sum id mhtables (gpuhashjoin_rescan idle_node) = Inr None
   \<and> map_sum id trace (gpuhashjoin_rescan idle_node)
       = Inr [EvReScanInner, EvPutTables, EvReScanOuter]
   \<and> map_sum id mhtables (gpuhashjoin_rescan (idle_node\<lparr>chgParam_inner := True\<rparr>))
       = Inr (Some fresh_tables)"
  by (simp add: gpuhashjoin_rescan_def idle_node_def release_curr_def rescan_tables_def
      rescan_outer_def emit_def fresh_tables_def drain_running.simps ExecReScan_inner_def
      ExecReScan_outer_def)

section \<open>Host columns come first in the pseudo relation\<close>

lemma or2_and1: "(x OR 2) AND 1 = x AND (1::32 word)"
  by (simp add: bit.conj_disj_distrib2)

lemma or1_and1: "(x OR 1) AND 1 = (1::32 word)"
  by (simp add: bit.conj_disj_distrib2)

lemma two_and1: "(2::32 word) AND 1 = 0"
  by simp

lemma mark_varref_Some:
  "mark_varref node m vs rs ns = Some rs' \<Longrightarrow>
     \<exists>j<length rs. rs' = rs[j := rs ! j OR m]"
proof (induction node m vs rs ns arbitrary: rs' rule: mark_varref.induct)
  case (1 node m v vs r rs n ns)
  show ?case
  proof (cases "node = v")
    case True
    with 1 show ?thesis by (intro exI[of _ 0]) auto
  next
    case False
    with 1 obtain rs0 where a: "mark_varref node m vs rs ns = Some rs0" and b: "rs' = r # rs0"
      by auto
    from 1 False a obtain j where "j < length rs" "rs0 = rs[j := rs ! j OR m]" by blast
    with b show ?thesis by (intro exI[of _ "Suc j"]) auto
  qed
qed simp_all

lemma visit_var_host:
  assumes "pscan_inv (length (resnums c)) c" "refmode c = 1"
  shows "pscan_inv (length (resnums (visit_var node c))) (visit_var node c) \<and> refmode (visit_var node c) = 1"
proof (cases "mark_varref node (refmode c) (varlist c) (varrefs c) (resnums c)")
  case None
  with assms show ?thesis
    by (auto simp: visit_var_def pscan_inv_def nth_append)
next
  case (Some rs')
  from mark_varref_Some[OF Some] obtain j where j: "j < length (varrefs c)" "rs' = (varrefs c)[j := varrefs c ! j OR refmode c]" by blast
  with assms Some show ?thesis
    by (auto simp: visit_var_def pscan_inv_def nth_list_update or1_and1)
qed

lemma visit_var_device:
  assumes "pscan_inv k c" "refmode c = 2"
  shows "pscan_inv k (visit_var node c) \<and> refmode (visit_var node c) = 2"
proof (cases "mark_varref node (refmode c) (varlist c) (varrefs c) (resnums c)")
  case None
  with assms show ?thesis
    by (auto simp: visit_var_def pscan_inv_def nth_append)
next
  case (Some rs')
  from mark_varref_Some[OF Some] obtain j where j: "j < length (varrefs c)" "rs' = (varrefs c)[j := varrefs c ! j OR refmode c]" by blast
  with assms Some show ?thesis
    by (auto simp: visit_var_def pscan_inv_def nth_list_update or2_and1)
qed

lemma walker_host:
  "pscan_inv (length (resnums c)) c \<Longrightarrow> refmode c = 1 \<Longrightarrow>
   pscan_inv (length (resnums (build_pscan_varlist_walker node c))) (build_pscan_varlist_walker node c)
   \<and> refmode (build_pscan_varlist_walker node c) = 1"
proof (induction node c rule: build_pscan_varlist_walker.induct)
  case (4 children ctx)
  have "\<And>c. set ns \<subseteq> set children \<Longrightarrow> pscan_inv (length (resnums c)) c \<Longrightarrow> refmode c = 1 \<Longrightarrow>
     pscan_inv (length (resnums (fold build_pscan_varlist_walker ns c))) (fold build_pscan_varlist_walker ns c)
     \<and> refmode (fold build_pscan_varlist_walker ns c) = 1" for ns
  proof (induction ns)
    case Nil then show ?case by simp
  next
    case (Cons a ns)
    from Cons.prems have "a \<in> set children" by simp
    from "4.IH"[OF this Cons.prems(2) Cons.prems(3)] Cons.IH Cons.prems(1) show ?case by simp
  qed
  with "4.prems" show ?case by simp
qed (simp_all add: visit_var_host)

lemma walker_device:
  "pscan_inv k c \<Longrightarrow> refmode c = 2 \<Longrightarrow>
   pscan_inv k (build_pscan_varlist_walker node c)
   \<and> refmode (build_pscan_varlist_walker node c) = 2"
proof (induction node c rule: build_pscan_varlist_walker.induct)
  case (4 children ctx)
  have "\<And>c. set ns \<subseteq> set children \<Longrightarrow> pscan_inv k c \<Longrightarrow> refmode c = 2 \<Longrightarrow>
     pscan_inv k (fold build_pscan_varlist_walker ns c)
     \<and> refmode (fold build_pscan_varlist_walker ns c) = 2" for ns
  proof (induction ns)
    case Nil then show ?case by simp
  next
    case (Cons a ns)
    from Cons.prems have "a \<in> set children" by simp
    from "4.IH"[OF this Cons.prems(2) Cons.prems(3)] Cons.IH Cons.prems(1) show ?case by simp
  qed
  with "4.prems" show ?case by simp
qed (simp_all add: visit_var_device)

lemma fold_walker_host:
  "pscan_inv (length (resnums c)) c \<Longrightarrow> refmode c = 1 \<Longrightarrow>
   pscan_inv (length (resnums (fold build_pscan_varlist_walker ns c)))
     (fold build_pscan_varlist_walker ns c)
   \<and> refmode (fold build_pscan_varlist_walker ns c) = 1"
  by (induction ns arbitrary: c) (simp_all add: walker_host)

lemma fold_walker_device:
  "pscan_inv k c \<Longrightarrow> refmode c = 2 \<Longrightarrow>
   pscan_inv k (fold build_pscan_varlist_walker ns c)
   \<and> refmode (fold build_pscan_varlist_walker ns c) = 2"
  by (induction ns arbitrary: c) (simp_all add: walker_device)

lemma collect_pscan_vars_inv:
  "\<exists>k. pscan_inv k (collect_pscan_vars ghjoin)"
proof -
  let ?c0 = "\<lparr>varlist = [], varrefs = [], resnums = [], refmode = 1\<rparr>"
  have "pscan_inv (length (resnums ?c0)) ?c0" by (simp add: pscan_inv_def)
  then have h: "pscan_inv (length (resnums (collect_host_vars ghjoin))) (collect_host_vars ghjoin)"
    unfolding collect_host_vars_def by (rule fold_walker_host[THEN conjunct1]) simp
  let ?c1 = "(collect_host_vars ghjoin)\<lparr>refmode := 2\<rparr>"
  from h have "pscan_inv (length (resnums (collect_host_vars ghjoin))) ?c1"
    by (simp add: pscan_inv_def)
  then have "pscan_inv (length (resnums (collect_host_vars ghjoin))) (collect_pscan_vars ghjoin)"
    unfolding collect_pscan_vars_def by (rule fold_walker_device[THEN conjunct1]) simp
  then show ?thesis ..
qed

lemma scan_pending_sound:
  "scan_pending X depth tlist vs rs ns = (temp, vs', rs', ns') \<Longrightarrow>
   (\<forall>v\<in>set temp. \<exists>(m, n)\<in>set (zip rs ns).
        ref_host v = (m AND 1 \<noteq> 0) \<and> resno_vt v = word_of_int n)
   \<and> set (zip rs' ns') \<subseteq> set (zip rs ns)"
proof (induction X depth tlist vs rs ns arbitrary: temp vs' rs' ns' rule: scan_pending.induct)
  case (1 X depth tlist node vs mode rs resnum ns)
  obtain t0 v0 r0 n0 where rec: "scan_pending X depth tlist vs rs ns = (t0, v0, r0, n0)"
    by (cases "scan_pending X depth tlist vs rs ns") auto
  note ih = "1.IH"[OF rec]
  show ?case
  proof (cases "find_tle node tlist")
    case None
    with "1.prems" rec have "temp = t0" "rs' = mode # r0" "ns' = resnum # n0" by auto
    with ih show ?thesis by fastforce
  next
    case (Some tle)
    with "1.prems" rec have "temp = make_vartrans X depth tle node mode resnum # t0" "rs' = r0" "ns' = n0"
      by auto
    with ih show ?thesis by (fastforce simp: make_vartrans_def)
  qed
qed auto

lemma resolve_depths_sound:
  "v \<in> set (resolve_depths X depth tls vs rs ns) \<Longrightarrow>
   \<exists>(m, n)\<in>set (zip rs ns). ref_host v = (m AND 1 \<noteq> 0) \<and> resno_vt v = word_of_int n"
proof (induction tls arbitrary: depth vs rs ns)
  case Nil then show ?case by simp
next
  case (Cons tlist tls)
  obtain t0 v0 r0 n0 where sp: "scan_pending X depth tlist vs rs ns = (t0, v0, r0, n0)"
    by (cases "scan_pending X depth tlist vs rs ns") auto
  from scan_pending_sound[OF sp] have
    a: "\<forall>v\<in>set t0. \<exists>(m, n)\<in>set (zip rs ns). ref_host v = (m AND 1 \<noteq> 0) \<and> resno_vt v = word_of_int n"
    and b: "set (zip r0 n0) \<subseteq> set (zip rs ns)" by auto
  from Cons.prems sp have "v \<in> set t0 \<or> v \<in> set (resolve_depths X (Suc depth) tls v0 r0 n0)"
    by auto
  then show ?case
  proof
    assume "v \<in> set t0" with a show ?thesis by blast
  next
    assume "v \<in> set (resolve_depths X (Suc depth) tls v0 r0 n0)"
    from Cons.IH[OF this] b show ?thesis by blast
  qed
qed

lemma sint_resno: "0 \<le> n \<Longrightarrow> n < 2 ^ 15 \<Longrightarrow> sint (word_of_int n :: 16 word) = n"
  by (simp add: sint_sbintrunc' signed_take_bit_int_eq_self)

lemma pscan_inv_order:
  assumes inv: "pscan_inv k c" and small: "length (varlist c) < 2 ^ 15"
    and p1: "(m1, n1) \<in> set (zip (varrefs c) (resnums c))"
    and p2: "(m2, n2) \<in> set (zip (varrefs c) (resnums c))"
    and h1: "m1 AND 1 \<noteq> 0" and h2: "\<not> m2 AND 1 \<noteq> 0"
  shows "sint (word_of_int n1 :: 16 word) < sint (word_of_int n2 :: 16 word)"
proof -
  let ?n = "length (resnums c)"
  from inv have len: "length (varrefs c) = ?n" "length (varlist c) = ?n"
    and rn: "resnums c = map int [1..<Suc ?n]"
    and fl: "\<forall>i<?n. (varrefs c ! i AND 1 \<noteq> 0) = (i < k)"
    by (simp_all add: pscan_inv_def)
  from p1 len obtain i where i: "i < ?n" "varrefs c ! i = m1" "resnums c ! i = n1"
    by (auto simp: in_set_zip)
  from p2 len obtain j where j: "j < ?n" "varrefs c ! j = m2" "resnums c ! j = n2"
    by (auto simp: in_set_zip)
  have nth: "\<And>x. x < ?n \<Longrightarrow> resnums c ! x = int x + 1"
  proof -
    fix x assume x: "x < ?n"
    have "resnums c ! x = map int [1..<Suc ?n] ! x" using rn by simp
    also have "\<dots> = int x + 1" using x by (simp del: upt_Suc)
    finally show "resnums c ! x = int x + 1" .
  qed
  from fl i h1 have "i < k" by auto
  moreover from fl j h2 have "\<not> j < k" by auto
  ultimately have "i < j" by simp
  with i j nth have lt: "n1 < n2" "0 \<le> n1" "0 \<le> n2" and n2: "n2 = int j + 1" by auto
  from j small len n2 have b2: "n2 < 2 ^ 15" by simp
  with lt have b1: "n1 < 2 ^ 15" by simp
  have "sint (word_of_int n1 :: 16 word) = n1" using lt(2) b1 by (rule sint_resno)
  moreover have "sint (word_of_int n2 :: 16 word) = n2" using lt(3) b2 by (rule sint_resno)
  ultimately show ?thesis using lt(1) by simp
qed

lemma example_collect:
  "collect_pscan_vars example_join =
     \<lparr>varlist = [Var 2 2, Var 1 2, Var 1 1, Var 2 1], varrefs = [1, 3, 2, 2],
      resnums = [1, 2, 3, 4], refmode = 2\<rparr>"
  by (simp add: collect_pscan_vars_def collect_host_vars_def example_join_def visit_var_def)

lemma example_tlists:
  "outer_tlists example_join = [example_outer_tlist, example_inner_tlist]"
  by (simp add: example_join_def)

lemma example_vartrans:
  "map (\<lambda>v. (srcdepth v, srcresno v, resno_vt v, ref_host v, ref_device v))
     (build_pseudo_scan_vartrans example_info example_join)
   = [(0, 2, 2, True, True), (0, 1, 3, False, True), (1, 2, 1, True, False),
      (1, 1, 4, False, True)]"
  by (simp add: build_pseudo_scan_vartrans_def example_collect make_vartrans_def
      example_tlists example_outer_tlist_def example_inner_tlist_def)

text \<open>
  C5. In the column table built by \<open>build_pseudo_scan_vartrans\<close>, every entry
  referenced by host code has a smaller output column number than every entry
  that is not (one referenced by device code only), whenever the plan references
  fewer than 2^15 distinct columns, so that the numbers fit an AttrNumber.
\<close>

theorem host_columns_before_device_only:
  assumes "length (varlist (collect_pscan_vars ghjoin)) < 2 ^ 15"
  shows "\<forall>v\<in>set (build_pseudo_scan_vartrans X ghjoin).
         \<forall>w\<in>set (build_pseudo_scan_vartrans X ghjoin).
           ref_host v \<and> \<not> ref_host w \<longrightarrow> sint (resno_vt v) < sint (resno_vt w)"
proof (intro ballI impI)
  fix v w
  let ?c = "collect_pscan_vars ghjoin"
  assume v: "v \<in> set (build_pseudo_scan_vartrans X ghjoin)"
    and w: "w \<in> set (build_pseudo_scan_vartrans X ghjoin)"
    and hw: "ref_host v \<and> \<not> ref_host w"
  obtain k where inv: "pscan_inv k ?c" using collect_pscan_vars_inv by blast
  from v obtain m1 n1 where p1: "(m1, n1) \<in> set (zip (varrefs ?c) (resnums ?c))"
    "ref_host v = (m1 AND 1 \<noteq> 0)" "resno_vt v = word_of_int n1"
    unfolding build_pseudo_scan_vartrans_def Let_def by (blast dest: resolve_depths_sound)
  from w obtain m2 n2 where p2: "(m2, n2) \<in> set (zip (varrefs ?c) (resnums ?c))"
    "ref_host w = (m2 AND 1 \<noteq> 0)" "resno_vt w = word_of_int n2"
    unfolding build_pseudo_scan_vartrans_def Let_def by (blast dest: resolve_depths_sound)
  from pscan_inv_order[OF inv assms p1(1) p2(1)] p1 p2 hw
  show "sint (resno_vt v) < sint (resno_vt w)" by simp
qed

theorem host_columns_before_device_only_witness:
  "length (varlist (collect_pscan_vars example_join)) < 2 ^ 15
   \<and> (let vt = build_pseudo_scan_vartrans example_info example_join
      in ref_host (vt ! 0) \<and> \<not> ref_host (vt ! 1)
         \<and> sint (resno_vt (vt ! 0)) < sint (resno_vt (vt ! 1)))"
proof -
  have small: "length (varlist (collect_pscan_vars example_join)) < 2 ^ 15"
    by (simp add: example_collect)
  let ?vt = "build_pseudo_scan_vartrans example_info example_join"
  have vt: "?vt ! 0 \<in> set ?vt" "?vt ! 1 \<in> set ?vt"
    and fl: "ref_host (?vt ! 0)" "\<not> ref_host (?vt ! 1)"
    by (simp_all add: build_pseudo_scan_vartrans_def example_collect make_vartrans_def
      example_tlists example_outer_tlist_def example_inner_tlist_def)
  from host_columns_before_device_only[OF small, of example_info] vt fl
  have "sint (resno_vt (?vt ! 0)) < sint (resno_vt (?vt ! 1))" by blast
  with small fl show ?thesis by (simp add: Let_def)
qed

section \<open>The hash value of an inner row\<close>

lemma COMP_CRC32_append:
  "COMP_CRC32 A (COMP_CRC32 A crc xs) ys = COMP_CRC32 A crc (xs @ ys)"
  by (simp add: COMP_CRC32_def)

lemma comp_hash_keys_concat:
  "comp_hash_keys A slot ks ls bs crc =
     COMP_CRC32 A crc (concat (map (key_bytes A slot) (zip ks (zip ls bs))))"
proof (induction A slot ks ls bs crc rule: comp_hash_keys.induct)
  case (1 A slot clause lc1 keylen lc2 keybyval lc3 crc)
  obtain val isnull where ev: "clause slot = (val, isnull)" by (cases "clause slot")
  show ?case
  proof (cases isnull)
    case True
    with ev "1.IH"(1)[OF ev[symmetric]] show ?thesis by (simp add: key_bytes_def)
  next
    case False
    note nn = this
    show ?thesis
    proof (cases "keylen > 0")
      case True
      show ?thesis
      proof (cases keybyval)
        case True
        with ev nn \<open>keylen > 0\<close> "1.IH"(2)[OF ev[symmetric] nn \<open>keylen > 0\<close> True]
        show ?thesis by (simp add: key_bytes_def COMP_CRC32_append)
      next
        case False
        with ev nn \<open>keylen > 0\<close> "1.IH"(3)[OF ev[symmetric] nn \<open>keylen > 0\<close> False]
        show ?thesis by (simp add: key_bytes_def COMP_CRC32_append)
      qed
    next
      case False
      with ev nn "1.IH"(4)[OF ev[symmetric] nn False]
      show ?thesis by (simp add: key_bytes_def COMP_CRC32_append)
    qed
  qed
qed (simp_all add: COMP_CRC32_def)

text \<open>
  C7. The hash of a row is the CRC, between its initialisation and its
  finalisation, of the bytes of its key fields in order, where a key gives the
  bytes \<open>key_bytes\<close> lists: the first \<open>keylen\<close> bytes of the datum for a
  fixed-length by-value key, \<open>keylen\<close> bytes at the pointer for a fixed-length
  by-reference key, the payload without the length header for a variable-length
  key.
\<close>

theorem hash_of_row_crc:
  "hash_of_row A node scan_tuple =
     FIN_CRC32 (COMP_CRC32 A INIT_CRC32 (row_key_bytes A node scan_tuple))"
  by (simp add: hash_of_row_def row_key_bytes_def comp_hash_keys_concat)

lemma zip_drop_nth:
  "i < length xs \<Longrightarrow> i < length ys \<Longrightarrow>
   zip (drop_nth i xs) (drop_nth i ys) = drop_nth i (zip xs ys)"
  by (simp add: drop_nth_def take_zip drop_zip)

lemma concat_map_drop_nth:
  assumes "i < length zs" "f (zs ! i) = []"
  shows "concat (map f (drop_nth i zs)) = concat (map f zs)"
proof -
  have "zs = take i zs @ zs ! i # drop (Suc i) zs" using assms(1) by (rule id_take_nth_drop)
  then have "concat (map f zs) = concat (map f (take i zs @ zs ! i # drop (Suc i) zs))" by simp
  also have "\<dots> = concat (map f (drop_nth i zs))" using assms(2) by (simp add: drop_nth_def)
  finally show ?thesis by simp
qed

lemma null_key_same_bytes:
  assumes "i < length (hash_keys node)" "i < length (hash_keylen node)"
    "i < length (hash_keybyval node)" "snd ((hash_keys node ! i) scan_tuple)"
  shows "row_key_bytes A (without_key i node) scan_tuple = row_key_bytes A node scan_tuple"
proof -
  let ?zs = "zip (hash_keys node) (zip (hash_keylen node) (hash_keybyval node))"
  have z: "zip (drop_nth i (hash_keys node))
             (zip (drop_nth i (hash_keylen node)) (drop_nth i (hash_keybyval node)))
           = drop_nth i ?zs"
    using assms(1-3) by (simp add: zip_drop_nth)
  have len: "i < length ?zs" using assms(1-3) by simp
  obtain val where "(hash_keys node ! i) scan_tuple = (val, True)"
    using assms(4) by (cases "(hash_keys node ! i) scan_tuple") auto
  then have kb: "key_bytes A scan_tuple (?zs ! i) = []"
    using assms(1-3) by (simp add: key_bytes_def)
  from concat_map_drop_nth[of i ?zs "key_bytes A scan_tuple", OF len kb] z show ?thesis
    by (simp add: row_key_bytes_def without_key_def)
qed

lemma null_key_same_hash:
  assumes "i < length (hash_keys node)" "i < length (hash_keylen node)"
    "i < length (hash_keybyval node)" "snd ((hash_keys node ! i) scan_tuple)"
  shows "hash_of_row A node scan_tuple = hash_of_row A (without_key i node) scan_tuple"
  using null_key_same_bytes[OF assms, of A]
  by (simp add: hash_of_row_def comp_hash_keys_concat row_key_bytes_def)

lemma example_hash: "hash_of_row example_abi example_node [5, 1] = 250"
  by (simp add: hash_of_row_def example_node_def example_abi_def first_byte_key_def null_key_def
     COMP_CRC32_def INIT_CRC32_def FIN_CRC32_def)

lemma example_next_slot:
  "next_slot example_scan =
     (Some [5, 1], example_scan\<lparr>mhs := example_node\<lparr>outer_scan := [[6, 2], [9, 3]]\<rparr>\<rparr>)"
  by (simp add: next_slot_def example_scan_def example_node_def)

lemma example_acquire:
  "acquire_space example_abi 144
     (example_scan\<lparr>mhs := example_node\<lparr>outer_scan := [[6, 2], [9, 3]]\<rparr>\<rparr>)
   = Inr (example_scan\<lparr>mhs := example_node\<lparr>outer_scan := [[6, 2], [9, 3]]\<rparr>\<rparr>)"
  by (simp add: acquire_space.simps example_scan_def example_node_def small_tables_def
      fresh_tables_def)

text \<open>
  C10. A key expression that evaluates to null gives the CRC no byte: the hash
  of the row is the hash it has with that key left out of the three key lists.
  The turn of the scan loop inserts the row all the same: whenever the tuple is
  fetched and its space acquired, the turn goes on with one more tuple counted
  and the tuple stored, under that hash, at the consumption mark.
\<close>

theorem null_key_skipped_row_inserted:
  assumes fetched: "next_slot s0 = (Some scan_tuple, s1)"
    and space: "acquire_space A (usage (mhtables_p s1) + consumed s1 + entry_size A scan_tuple) s1
                  = Inr s"
    and slots: "nslots (khtable s) \<noteq> 0"
    and idx: "i < length (hash_keys (mhs s))" "i < length (hash_keylen (mhs s))"
      "i < length (hash_keybyval (mhs s))"
    and null: "snd ((hash_keys (mhs s) ! i) scan_tuple)"
  shows "hash_of_row A (mhs s) scan_tuple = hash_of_row A (without_key i (mhs s)) scan_tuple
       \<and> (\<exists>s'. scan_body A s0 = Continue s' \<and> ntuples_l s' = ntuples_l s + 1
               \<and> map_option htup (hentries (khtable s') (consumed s)) = Some scan_tuple
               \<and> map_option hash (hentries (khtable s') (consumed s))
                   = Some (hash_of_row A (without_key i (mhs s)) scan_tuple))"
proof -
  have h: "hash_of_row A (mhs s) scan_tuple = hash_of_row A (without_key i (mhs s)) scan_tuple"
    using idx null by (rule null_key_same_hash)
  obtain s' where ins: "insert_entry A scan_tuple s = Inr s'"
    and cnt: "ntuples_l s' = ntuples_l s + 1"
    and tup: "map_option htup (hentries (khtable s') (consumed s)) = Some scan_tuple"
    and hsh: "map_option hash (hentries (khtable s') (consumed s))
                = Some (hash_of_row A (mhs s) scan_tuple)"
    using slots by (simp add: insert_entry_def Let_def)
  from fetched space ins have "scan_body A s0 = Continue s'" by (simp add: scan_body_def)
  with h cnt tup hsh show ?thesis by auto
qed

theorem null_key_skipped_row_inserted_witness:
  "hash_of_row example_abi example_node [5, 1]
     = hash_of_row example_abi (without_key 1 example_node) [5, 1]
   \<and> (\<exists>s'. scan_body example_abi example_scan = Continue s' \<and> ntuples_l s' = 1
           \<and> map_option htup (hentries (khtable s') 56) = Some [5, 1]
           \<and> map_option hash (hentries (khtable s') 56) = Some 250)"
proof -
  let ?s = "example_scan\<lparr>mhs := example_node\<lparr>outer_scan := [[6, 2], [9, 3]]\<rparr>\<rparr>"
  have sz: "usage (mhtables_p ?s) + consumed ?s + entry_size example_abi [5, 1] = 144"
    by (simp add: example_scan_def small_tables_def fresh_tables_def entry_size_def
        LONGALIGN_def example_abi_def)
  have space: "acquire_space example_abi
      (usage (mhtables_p ?s) + consumed ?s + entry_size example_abi [5, 1]) ?s = Inr ?s"
    unfolding sz by (rule example_acquire)
  have slots: "nslots (khtable ?s) \<noteq> 0"
    by (simp add: example_scan_def new_khtable_def example_node_def)
  have idx: "1 < length (hash_keys (mhs ?s))" "1 < length (hash_keylen (mhs ?s))"
    "1 < length (hash_keybyval (mhs ?s))"
    by (simp_all add: example_node_def)
  have null: "snd ((hash_keys (mhs ?s) ! 1) [5, 1])"
    by (simp add: example_node_def null_key_def)
  have same: "without_key 1 (mhs ?s) = (without_key 1 example_node)\<lparr>outer_scan := [[6, 2], [9, 3]]\<rparr>"
    by (simp add: without_key_def)
  have h1: "hash_of_row example_abi (mhs ?s) [5, 1] = 250"
    using example_hash by (simp add: hash_of_row_def)
  have h2: "hash_of_row example_abi (mhs ?s) [5, 1]
      = hash_of_row example_abi example_node [5, 1]"
    by (simp add: hash_of_row_def)
  have h3: "hash_of_row example_abi (without_key 1 (mhs ?s)) [5, 1]
      = hash_of_row example_abi (without_key 1 example_node) [5, 1]"
    by (simp add: hash_of_row_def without_key_def)
  have c: "consumed ?s = 56" "ntuples_l ?s = 0" by (simp_all add: example_scan_def)
  from null_key_skipped_row_inserted[OF example_next_slot space slots idx null]
  show ?thesis unfolding h3 c using h1 h2 by simp
qed

section \<open>Insertion of an entry at the head of its bucket\<close>


lemma slot_index_in_range:
  assumes "table_ok s" "nslots (khtable s) \<noteq> 0"
  shows "slot_index A scan_tuple s < length (hash_slots (khtable s))"
proof -
  from assms(2) have "0 < unat (nslots (khtable s))" by (simp add: unat_gt_0)
  then have "unat (hash_of_row A (mhs s) scan_tuple mod nslots (khtable s))
        < unat (nslots (khtable s))"
    by (simp add: unat_mod)
  with assms(1) show ?thesis by (simp add: slot_index_def table_ok_def)
qed

lemma unat_of_nat_32: "n < 2 ^ 32 \<Longrightarrow> unat (of_nat n :: 32 word) = n"
  by (simp add: unat_of_nat)

lemma insert_entry_result:
  assumes "insert_entry A scan_tuple s = Inr s'"
  shows "nslots (khtable s) \<noteq> 0"
    and "s' = s\<lparr>khtable := (khtable s)
                   \<lparr>hentries := (hentries (khtable s))
                      (consumed s \<mapsto>
                         \<lparr>hash = hash_of_row A (mhs s) scan_tuple,
                          next = hash_slots (khtable s) ! slot_index A scan_tuple s,
                          rowid = ntuples_l s, t_len = of_nat (length scan_tuple),
                          htup = scan_tuple\<rparr>),
                    hash_slots := (hash_slots (khtable s))
                      [slot_index A scan_tuple s := of_nat (consumed s)]\<rparr>,
                consumed := consumed s + entry_size A scan_tuple,
                ntuples_l := ntuples_l s + 1\<rparr>"
  using assms by (auto simp: insert_entry_def Let_def slot_index_def split: if_splits)


lemma LONGALIGN_ge: "n \<le> LONGALIGN n"
  unfolding LONGALIGN_def by presburger

text \<open>The insertion keeps the table well formed, so the theorem applies turn after turn.\<close>

lemma insert_entry_table_ok:
  assumes ok: "table_ok s" and small: "consumed s < 2 ^ 32"
    and ins: "insert_entry A scan_tuple s = Inr s'" and head: "0 < hentry_head A"
  shows "table_ok s'"
proof -
  let ?kh = "khtable s" and ?i = "slot_index A scan_tuple s" and ?c = "consumed s"
  let ?e = "\<lparr>hash = hash_of_row A (mhs s) scan_tuple, next = hash_slots ?kh ! ?i,
             rowid = ntuples_l s, t_len = of_nat (length scan_tuple), htup = scan_tuple\<rparr>"
  note nz = insert_entry_result(1)[OF ins] and s' = insert_entry_result(2)[OF ins]
  have ir: "?i < length (hash_slots ?kh)" using ok nz by (rule slot_index_in_range)
  from ok have closed: "links_closed ?kh" and pos: "0 < ?c"
    and below: "\<forall>off\<in>dom (hentries ?kh). off < ?c"
    and len: "length (hash_slots ?kh) = unat (nslots ?kh)"
    by (simp_all add: table_ok_def)
  have un: "unat (of_nat ?c :: 32 word) = ?c" using small by (rule unat_of_nat_32)
  have a: "\<forall>off\<in>set ((hash_slots ?kh)[?i := of_nat ?c]).
             off = 0 \<or> unat off \<in> dom ((hentries ?kh)(?c \<mapsto> ?e))"
  proof
    fix off assume "off \<in> set ((hash_slots ?kh)[?i := of_nat ?c])"
    then have "off = of_nat ?c \<or> off \<in> set (hash_slots ?kh)"
      by (auto dest: set_update_subset_insert[THEN subsetD])
    with closed un show "off = 0 \<or> unat off \<in> dom ((hentries ?kh)(?c \<mapsto> ?e))"
      by (auto simp: links_closed_def)
  qed
  have b: "\<forall>e\<in>ran ((hentries ?kh)(?c \<mapsto> ?e)).
             next e = 0 \<or> unat (next e) \<in> dom ((hentries ?kh)(?c \<mapsto> ?e))"
  proof
    fix e assume "e \<in> ran ((hentries ?kh)(?c \<mapsto> ?e))"
    then have "e = ?e \<or> e \<in> ran (hentries ?kh)"
      by (auto simp: ran_def split: if_splits)
    then show "next e = 0 \<or> unat (next e) \<in> dom ((hentries ?kh)(?c \<mapsto> ?e))"
    proof
      assume "e = ?e"
      moreover from closed ir have "hash_slots ?kh ! ?i = 0
          \<or> unat (hash_slots ?kh ! ?i) \<in> dom (hentries ?kh)"
        by (auto simp: links_closed_def)
      ultimately show ?thesis by auto
    next
      assume "e \<in> ran (hentries ?kh)"
      with closed show ?thesis by (auto simp: links_closed_def)
    qed
  qed
  have c: "\<forall>off\<in>dom ((hentries ?kh)(?c \<mapsto> ?e)). off < ?c + entry_size A scan_tuple"
  proof -
    from head LONGALIGN_ge[of "hentry_head A + length scan_tuple"]
    have "0 < entry_size A scan_tuple" by (simp add: entry_size_def)
    with below show ?thesis by (auto intro: trans_less_add1)
  qed
  from a b c len pos s' show ?thesis
    by (simp add: table_ok_def links_closed_def)
qed





section \<open>The window of sessions in flight\<close>

lemma fetch_loop_window_ok:
  "fetch_loop fmt g = Inr g' \<Longrightarrow> window_ok g \<Longrightarrow>
     window_ok g' \<and> pgstrom_max_async_chunks g' = pgstrom_max_async_chunks g"
proof (induction fmt g rule: fetch_loop.induct)
  case (1 fmt g)
  note unfold = fetch_loop.simps[of fmt g]
  show ?case
  proof (cases "\<not> outer_done g \<and> num_running g \<le> pgstrom_max_async_chunks g")
    case False
    with "1.prems" unfold show ?thesis by auto
  next
    case True
    from True "1.prems"(1) unfold obtain r g1 where
      ld: "gpuhashjoin_load_next_chunk fmt g = Inr (r, g1)"
      by (auto split: sum.splits)
    from load_next_chunk_window[OF ld] have w1: "same_window g g1" .
    show ?thesis
    proof (cases r)
      case None
      with True ld "1.prems" unfold have "g' = g1" by simp
      with w1 "1.prems"(2) show ?thesis by (auto simp: same_window_def window_ok_def)
    next
      case (Some ghjoin)
      obtain ok g2 where en: "enqueue_message g1 = (ok, g2)" by (cases "enqueue_message g1")
      with True ld Some "1.prems"(1) unfold have ok: "ok" by (cases ok) auto
      from en have w2: "num_running g2 = num_running g1"
        "pgstrom_max_async_chunks g2 = pgstrom_max_async_chunks g1" "trace g2 = trace g1"
        by (auto simp: enqueue_message_def split: list.splits bool.splits)
      let ?g3 = "(emit (EvEnqueue (num_running g2 + 1)) g2)\<lparr>num_running := num_running g2 + 1\<rparr>"
      obtain msg g4 where dq: "dequeue_message EvTryDequeue ?g3 = (msg, g4)"
        by (cases "dequeue_message EvTryDequeue ?g3")
      then have w4: "num_running g4 = num_running g2 + 1"
        "pgstrom_max_async_chunks g4 = pgstrom_max_async_chunks g2"
        "trace g4 = trace g2 @ [EvEnqueue (num_running g2 + 1), EvTryDequeue]"
        by (auto simp: dequeue_message_def emit_def split: list.splits)
      from True w1 w2 w4 "1.prems"(2) have ok4: "window_ok g4"
        by (auto simp: window_ok_def same_window_def)
      show ?thesis
      proof (cases msg)
        case None
        with True ld Some en ok dq "1.prems"(1) unfold have rec: "fetch_loop fmt g4 = Inr g'"
          by simp
        from ok have okT: "ok = True" by simp
        from "1.IH"[OF True ld refl Some en[symmetric] okT dq[symmetric] None rec ok4]
          w1 w2 w4 show ?thesis by (simp add: same_window_def)
      next
        case (Some m)
        with True ld \<open>r = Some ghjoin\<close> en ok dq "1.prems"(1) unfold
        have "g' = g4\<lparr>num_running := num_running g4 - 1, ready_pscans := ready_pscans g4 @ [m]\<rparr>"
          by simp
        with ok4 w1 w2 w4 show ?thesis by (auto simp: window_ok_def same_window_def)
      qed
    qed
  qed
qed

lemma wait_response_window_ok:
  "wait_response g = Inr (Some g') \<Longrightarrow> window_ok g \<Longrightarrow> window_ok g'"
  by (auto simp: wait_response_def window_ok_def dequeue_message_def emit_def
      split: if_splits list.splits option.splits)

lemma pick_ready_window_ok:
  "pick_ready g = Inr (r, g') \<Longrightarrow> window_ok g \<Longrightarrow> window_ok g'"
  by (auto simp: pick_ready_def window_ok_def split: if_splits list.splits)

lemma busy_chunk:
  "gpuhashjoin_load_next_chunk KDS_FORMAT_TUPSLOT busy_node =
     Inr (Some \<lparr>msg_errcode = StromError_Success, pds = [[1, 7]], nvalids = - 1,
                kresults = \<lparr>nrels = 2, nrooms = 1, nitems = 0, errcode = StromError_Success\<rparr>,
                pds_dest = plain_dest KDS_FORMAT_TUPSLOT 1\<rparr>,
          busy_node\<lparr>outer_rows := [], outer_overflow := Some [2, 8]\<rparr>)"
  by (simp add: gpuhashjoin_load_next_chunk.simps load_inner_table_def load_outer_bulk_def
      scan_outer_rows.simps take_outer_slot_def pgstrom_create_gpuhashjoin_def busy_node_def
      idle_node_def fresh_tables_def Let_def)

lemma busy_loop:
  "fetch_loop KDS_FORMAT_TUPSLOT busy_node =
     Inr (busy_node\<lparr>outer_rows := [], outer_overflow := Some [2, 8], num_running := 2,
                    trace := [EvEnqueue 2, EvTryDequeue]\<rparr>)"
  apply (subst fetch_loop.simps)
  apply (simp add: busy_chunk)
  apply (simp add: busy_node_def idle_node_def enqueue_message_def dequeue_message_def emit_def)
  apply (subst fetch_loop.simps)
  apply simp
  done

text \<open>
  C8 as stated fails: the loop admits a session while the count equals the
  limit, so with the limit 1 and one session in flight it issues a second one.
\<close>

theorem admission_limit_counterexample:
  "\<not> (\<forall>fmt g g'. num_running g \<le> pgstrom_max_async_chunks g \<and> fetch_loop fmt g = Inr g'
         \<longrightarrow> num_running g' \<le> pgstrom_max_async_chunks g')"
proof
  assume "\<forall>fmt g g'. num_running g \<le> pgstrom_max_async_chunks g \<and> fetch_loop fmt g = Inr g'
         \<longrightarrow> num_running g' \<le> pgstrom_max_async_chunks g'"
  from this[rule_format, OF conjI, OF _ busy_loop] show False
    by (simp add: busy_node_def idle_node_def)
qed

text \<open>
  C8, amended. The loop issues a session only while the outer scan is not done
  and the count is at most the limit; the count in flight, at every enqueue and
  at the return, is at most the limit plus one; and the function waits on the
  response queue only when no completed session is at hand.
\<close>

theorem admission_window_bound:
  assumes ok: "window_ok g"
    and ret: "pgstrom_fetch_gpuhashjoin fmt g = Inr (r, g')"
  shows "window_ok g'
       \<and> (outer_done g \<or> pgstrom_max_async_chunks g < num_running g
            \<longrightarrow> fetch_loop fmt g = Inr g)
       \<and> (\<exists>g1. fetch_loop fmt g = Inr g1 \<and> window_ok g1
              \<and> (ready_pscans g1 \<noteq> [] \<longrightarrow> wait_response g1 = Inr (Some g1)))"
proof -
  from ret obtain g1 where lp: "fetch_loop fmt g = Inr g1"
    by (auto simp: pgstrom_fetch_gpuhashjoin_def split: sum.splits)
  from fetch_loop_window_ok[OF lp ok] have ok1: "window_ok g1" by simp
  have stop: "outer_done g \<or> pgstrom_max_async_chunks g < num_running g
            \<longrightarrow> fetch_loop fmt g = Inr g"
    by (auto simp: fetch_loop.simps[of fmt g])
  have nowait: "ready_pscans g1 \<noteq> [] \<longrightarrow> wait_response g1 = Inr (Some g1)"
    by (simp add: wait_response_def)
  have "window_ok g'"
  proof (cases "wait_response g1")
    case (Inl e)
    with lp ret show ?thesis by (simp add: pgstrom_fetch_gpuhashjoin_def)
  next
    case (Inr w)
    show ?thesis
    proof (cases w)
      case None
      with Inr lp ret ok1 show ?thesis by (simp add: pgstrom_fetch_gpuhashjoin_def)
    next
      case (Some g2)
      with Inr lp ret have "pick_ready g2 = Inr (r, g')"
        by (simp add: pgstrom_fetch_gpuhashjoin_def)
      moreover from Inr Some ok1 have "window_ok g2" by (auto dest: wait_response_window_ok)
      ultimately show ?thesis by (rule pick_ready_window_ok)
    qed
  qed
  with lp ok1 stop nowait show ?thesis by blast
qed

section \<open>A failed expansion divides the inner relation\<close>
















lemma answered_chunk:
  "gpuhashjoin_load_next_chunk KDS_FORMAT_TUPSLOT answered_node =
     Inr (Some \<lparr>msg_errcode = StromError_Success, pds = [[1, 7]], nvalids = - 1,
                kresults = \<lparr>nrels = 2, nrooms = 1, nitems = 0, errcode = StromError_Success\<rparr>,
                pds_dest = plain_dest KDS_FORMAT_TUPSLOT 1\<rparr>,
          answered_node\<lparr>outer_rows := [], outer_overflow := Some [2, 8]\<rparr>)"
  by (simp add: gpuhashjoin_load_next_chunk.simps load_inner_table_def load_outer_bulk_def
      scan_outer_rows.simps take_outer_slot_def pgstrom_create_gpuhashjoin_def
      answered_node_def busy_node_def idle_node_def fresh_tables_def Let_def)

lemma answered_loop:
  "fetch_loop KDS_FORMAT_TUPSLOT answered_node =
     Inr (answered_node\<lparr>outer_rows := [], outer_overflow := Some [2, 8], mqueue := [],
                        ready_pscans := [done_session],
                        trace := [EvEnqueue 2, EvTryDequeue]\<rparr>)"
  apply (subst fetch_loop.simps)
  apply (simp add: answered_chunk)
  apply (simp add: answered_node_def busy_node_def idle_node_def enqueue_message_def
      dequeue_message_def emit_def)
  done

lemma answered_fetch:
  "pgstrom_fetch_gpuhashjoin KDS_FORMAT_TUPSLOT answered_node =
     Inr (Some done_session,
          answered_node\<lparr>outer_rows := [], outer_overflow := Some [2, 8], mqueue := [],
                        ready_pscans := [], trace := [EvEnqueue 2, EvTryDequeue]\<rparr>)"
  by (simp add: pgstrom_fetch_gpuhashjoin_def answered_loop wait_response_def pick_ready_def
      done_session_def)

theorem admission_window_bound_witness:
  "window_ok answered_node
   \<and> (\<exists>r g'. pgstrom_fetch_gpuhashjoin KDS_FORMAT_TUPSLOT answered_node = Inr (r, g')
         \<and> window_ok g' \<and> num_running g' = 1 \<and> pgstrom_max_async_chunks g' = 1
         \<and> trace g' = [EvEnqueue 2, EvTryDequeue])"
proof -
  let ?g = "answered_node\<lparr>outer_rows := [], outer_overflow := Some [2, 8], mqueue := [],
                        ready_pscans := [], trace := [EvEnqueue 2, EvTryDequeue]\<rparr>"
  have ok: "window_ok answered_node"
    by (simp add: window_ok_def answered_node_def busy_node_def idle_node_def)
  from admission_window_bound[OF ok answered_fetch]
  have w: "window_ok ?g" by blast
  have v: "num_running ?g = 1" "pgstrom_max_async_chunks ?g = 1"
    "trace ?g = [EvEnqueue 2, EvTryDequeue]"
    by (simp_all add: answered_node_def busy_node_def idle_node_def)
  from ok answered_fetch w v show ?thesis by blast
qed

section \<open>Submissions in which every call succeeds\<close>

lemma issue_success:
  "cl_rc w = [] \<Longrightarrow> issue c w = (0, note_call c w)"
  by (simp add: issue_def)

lemma keep_result_effect:
  assumes "keep_result c clghj w = (clghj', w')"
  shows "cl_log w' = cl_log w \<and> cl_rc w' = cl_rc w \<and> programs w' = programs w
       \<and> ev_status w' = ev_status w \<and> shmem_alloc w' = shmem_alloc w
       \<and> hjtable w' = hjtable w \<and> handles w \<le> handles w'
       \<and> m_hash_cl clghj' = m_hash_cl clghj \<and> hash_loader clghj' = hash_loader clghj
       \<and> (\<exists>evs. events clghj' = events clghj @ evs \<and> fresh_events (handles w) evs)"
  using assms
  by (cases c) (auto simp: keep_result_def fresh_handle_def fresh_events_def split: if_splits)

lemma fresh_events_mono:
  "fresh_events low evs \<Longrightarrow> low' \<le> low \<Longrightarrow> fresh_events low' evs"
  by (fastforce simp: fresh_events_def)

lemma fresh_events_append:
  "fresh_events low xs \<Longrightarrow> fresh_events low ys \<Longrightarrow> fresh_events low (xs @ ys)"
  by (auto simp: fresh_events_def)

lemma run_calls_success:
  "cl_rc w = [] \<Longrightarrow>
   \<exists>clghj' w'. run_calls cs clghj w = (None, clghj', w')
     \<and> cl_log w' = cl_log w @ cs \<and> cl_rc w' = [] \<and> programs w' = programs w
     \<and> ev_status w' = ev_status w \<and> shmem_alloc w' = shmem_alloc w
     \<and> hjtable w' = hjtable w \<and> handles w \<le> handles w'
     \<and> m_hash_cl clghj' = m_hash_cl clghj \<and> hash_loader clghj' = hash_loader clghj
     \<and> (\<exists>evs. events clghj' = events clghj @ evs \<and> fresh_events (handles w) evs)"
proof (induction cs arbitrary: clghj w)
  case Nil
  then show ?case by (simp add: fresh_events_def)
next
  case (Cons c cs)
  let ?w1 = "note_call c w"
  obtain c1 w2 where k: "keep_result c clghj ?w1 = (c1, w2)" by (cases "keep_result c clghj ?w1")
  note ke = keep_result_effect[OF k]
  from ke Cons.prems have rc2: "cl_rc w2 = []" by (simp add: note_call_def)
  from Cons.IH[OF rc2, of c1] obtain c' w' where
    r: "run_calls cs c1 w2 = (None, c', w')"
    and e: "cl_log w' = cl_log w2 @ cs" "cl_rc w' = []" "programs w' = programs w2"
      "ev_status w' = ev_status w2" "shmem_alloc w' = shmem_alloc w2"
      "hjtable w' = hjtable w2" "handles w2 \<le> handles w'"
      "m_hash_cl c' = m_hash_cl c1" "hash_loader c' = hash_loader c1"
    and ev: "\<exists>evs. events c' = events c1 @ evs \<and> fresh_events (handles w2) evs"
    by blast
  from ke obtain evs1 where ev1: "events c1 = events clghj @ evs1"
    "fresh_events (handles w) evs1" by (auto simp: note_call_def)
  from ev obtain evs2 where ev2: "events c' = events c1 @ evs2"
    "fresh_events (handles w2) evs2" by blast
  from ke have h12: "handles w \<le> handles w2" by (simp add: note_call_def)
  from ev2(2) h12 have "fresh_events (handles w) evs2" by (rule fresh_events_mono)
  with ev1 ev2 have evs: "events c' = events clghj @ (evs1 @ evs2)"
    "fresh_events (handles w) (evs1 @ evs2)"
    by (simp_all add: fresh_events_append)
  have run: "run_calls (c # cs) clghj w = (None, c', w')"
    using Cons.prems k r by (simp add: issue_success)
  from ke e h12 have rest: "cl_log w' = cl_log w @ c # cs" "programs w' = programs w"
    "ev_status w' = ev_status w" "shmem_alloc w' = shmem_alloc w" "hjtable w' = hjtable w"
    "handles w \<le> handles w'" "m_hash_cl c' = m_hash_cl clghj"
    "hash_loader c' = hash_loader clghj"
    by (simp_all add: note_call_def)
  from run rest e(2) evs show ?case by blast
qed

lemma process_first:
  assumes ok: "all_succeed w" and fmt: "has_result_format gj"
    and idle: "n_kernel (hjtable w) = 0"
  shows "\<exists>clghj w' evs. clserv_process_gpuhashjoin kt gj w = (Submitted clghj, w')
     \<and> all_succeed w' \<and> shmem_alloc w' = shmem_alloc w \<and> handles w \<le> handles w'
     \<and> calls_since (length (cl_log w)) w'
         = [host_calloc, clCreateBuffer M_hash, clEnqueueWriteBuffer M_hash,
            clCreateKernel kern_gpuhashjoin_main] @ submission_calls gj kt (proj_kernel_of gj)
     \<and> cl_log w' = cl_log w @ calls_since (length (cl_log w)) w'
     \<and> hash_loader clghj \<and> m_hash_cl clghj = Some (handles w)
     \<and> events clghj = Some (Suc (handles w)) # evs \<and> fresh_events (Suc (Suc (handles w))) evs
     \<and> hjtable w' = (hjtable w)\<lparr>m_hash := Some (handles w), ev_hash := Some (Suc (handles w)),
                                 n_kernel := 1\<rparr>
     \<and> Suc (handles w) < handles w'"
proof -
  let ?mht = "hjtable w"
  let ?w1 = "note_call host_calloc w"
  let ?w4 = "(note_call (clEnqueueWriteBuffer M_hash) (note_call (clCreateBuffer M_hash) ?w1))
               \<lparr>handles := Suc (Suc (handles w)),
                hjtable := ?mht\<lparr>m_hash := Some (handles w), ev_hash := Some (Suc (handles w)),
                                n_kernel := n_kernel ?mht + 1\<rparr>\<rparr>"
  let ?c2 = "new_clstate\<lparr>m_hash_cl := Some (handles w), events := [Some (Suc (handles w))],
                          hash_loader := True\<rparr>"
  from ok have rc: "cl_rc w = []" and pr: "programs w = []" and es: "ev_status w = []"
    by (simp_all add: all_succeed_def)
  have acq: "acquire_hash_table new_clstate ?w1 = (None, ?c2, ?w4)"
    using rc idle
    by (simp add: acquire_hash_table_def Let_def issue_def note_call_def fresh_handle_def
        new_clstate_def)
  have rc4: "cl_rc ?w4 = []" using rc by (simp add: note_call_def)
  let ?cs = "clCreateKernel kern_gpuhashjoin_main # submission_calls gj kt (proj_kernel_of gj)"
  from run_calls_success[OF rc4, of ?cs ?c2] obtain c' w' where
    r: "run_calls ?cs ?c2 ?w4 = (None, c', w')"
    and e: "cl_log w' = cl_log ?w4 @ ?cs" "cl_rc w' = []" "programs w' = programs ?w4"
      "ev_status w' = ev_status ?w4" "shmem_alloc w' = shmem_alloc ?w4"
      "hjtable w' = hjtable ?w4" "handles ?w4 \<le> handles w'"
      "m_hash_cl c' = m_hash_cl ?c2" "hash_loader c' = hash_loader ?c2"
    and ev: "\<exists>evs. events c' = events ?c2 @ evs \<and> fresh_events (handles ?w4) evs"
    by blast
  from ev obtain evs where evs: "events c' = Some (Suc (handles w)) # evs"
    "fresh_events (Suc (Suc (handles w))) evs" by auto
  have split: "run_calls ?cs ?c2 ?w4 =
      (case run_calls [clCreateKernel kern_gpuhashjoin_main] ?c2 ?w4 of
         (Some rc, c3, w3) \<Rightarrow> (Some rc, c3, w3)
       | (None, c3, w3) \<Rightarrow> run_calls (submission_calls gj kt (proj_kernel_of gj)) c3 w3)"
    using rc4 by (simp add: issue_success keep_result_def)
  obtain c3 w3 where k: "run_calls [clCreateKernel kern_gpuhashjoin_main] ?c2 ?w4 = (None, c3, w3)"
    using rc4 by (simp add: issue_success keep_result_def)
  with split r have sub: "run_calls (submission_calls gj kt (proj_kernel_of gj)) c3 w3
      = (None, c', w')" by simp
  have "clserv_process_gpuhashjoin kt gj w = (Submitted c', w')"
    using rc pr fmt acq k sub
    by (auto simp: clserv_process_gpuhashjoin_def issue_success lookup_program_def note_call_def
        has_result_format_def proj_kernel_of_def)
  moreover have "all_succeed w'" using e pr es by (simp add: all_succeed_def note_call_def)
  moreover have "calls_since (length (cl_log w)) w'
         = [host_calloc, clCreateBuffer M_hash, clEnqueueWriteBuffer M_hash,
            clCreateKernel kern_gpuhashjoin_main] @ submission_calls gj kt (proj_kernel_of gj)"
    using e(1) by (simp add: calls_since_def note_call_def)
  moreover have "Suc (handles w) < handles w'" using e(7) by simp
  moreover have "hjtable w' = (hjtable w)\<lparr>m_hash := Some (handles w),
      ev_hash := Some (Suc (handles w)), n_kernel := 1\<rparr>"
    using e(6) idle by (simp add: note_call_def)
  ultimately show ?thesis using e evs by (auto simp: note_call_def)
qed

lemma process_shared:
  assumes ok: "all_succeed w" and fmt: "has_result_format gj"
    and busy: "n_kernel (hjtable w) \<noteq> 0"
  shows "\<exists>clghj w' evs. clserv_process_gpuhashjoin kt gj w = (Submitted clghj, w')
     \<and> all_succeed w' \<and> shmem_alloc w' = shmem_alloc w \<and> handles w \<le> handles w'
     \<and> calls_since (length (cl_log w)) w'
         = [host_calloc, clRetainMemObject, clRetainEvent,
            clCreateKernel kern_gpuhashjoin_main] @ submission_calls gj kt (proj_kernel_of gj)
     \<and> cl_log w' = cl_log w @ calls_since (length (cl_log w)) w'
     \<and> \<not> hash_loader clghj \<and> m_hash_cl clghj = m_hash (hjtable w)
     \<and> events clghj = ev_hash (hjtable w) # evs \<and> fresh_events (handles w) evs
     \<and> hjtable w' = (hjtable w)\<lparr>n_kernel := n_kernel (hjtable w) + 1\<rparr>"
proof -
  let ?mht = "hjtable w"
  let ?w1 = "note_call host_calloc w"
  let ?w4 = "(note_calls [clRetainMemObject, clRetainEvent] ?w1)
               \<lparr>hjtable := ?mht\<lparr>n_kernel := n_kernel ?mht + 1\<rparr>\<rparr>"
  let ?c2 = "new_clstate\<lparr>m_hash_cl := m_hash ?mht, events := [ev_hash ?mht]\<rparr>"
  from ok have rc: "cl_rc w = []" and pr: "programs w = []" and es: "ev_status w = []"
    by (simp_all add: all_succeed_def)
  have acq: "acquire_hash_table new_clstate ?w1 = (None, ?c2, ?w4)"
    using busy
    by (simp add: acquire_hash_table_def Let_def note_call_def note_calls_def new_clstate_def)
  have rc4: "cl_rc ?w4 = []" using rc by (simp add: note_call_def note_calls_def)
  let ?cs = "clCreateKernel kern_gpuhashjoin_main # submission_calls gj kt (proj_kernel_of gj)"
  from run_calls_success[OF rc4, of ?cs ?c2] obtain c' w' where
    r: "run_calls ?cs ?c2 ?w4 = (None, c', w')"
    and e: "cl_log w' = cl_log ?w4 @ ?cs" "cl_rc w' = []" "programs w' = programs ?w4"
      "ev_status w' = ev_status ?w4" "shmem_alloc w' = shmem_alloc ?w4"
      "hjtable w' = hjtable ?w4" "handles ?w4 \<le> handles w'"
      "m_hash_cl c' = m_hash_cl ?c2" "hash_loader c' = hash_loader ?c2"
    and ev: "\<exists>evs. events c' = events ?c2 @ evs \<and> fresh_events (handles ?w4) evs"
    by blast
  from ev obtain evs where evs: "events c' = ev_hash ?mht # evs"
    "fresh_events (handles w) evs" by (auto simp: note_call_def note_calls_def)
  have split: "run_calls ?cs ?c2 ?w4 =
      (case run_calls [clCreateKernel kern_gpuhashjoin_main] ?c2 ?w4 of
         (Some rc, c3, w3) \<Rightarrow> (Some rc, c3, w3)
       | (None, c3, w3) \<Rightarrow> run_calls (submission_calls gj kt (proj_kernel_of gj)) c3 w3)"
    using rc4 by (simp add: issue_success keep_result_def)
  obtain c3 w3 where k: "run_calls [clCreateKernel kern_gpuhashjoin_main] ?c2 ?w4 = (None, c3, w3)"
    using rc4 by (simp add: issue_success keep_result_def)
  with split r have sub: "run_calls (submission_calls gj kt (proj_kernel_of gj)) c3 w3
      = (None, c', w')" by simp
  have "clserv_process_gpuhashjoin kt gj w = (Submitted c', w')"
    using rc pr fmt acq k sub
    by (auto simp: clserv_process_gpuhashjoin_def issue_success lookup_program_def note_call_def
        has_result_format_def proj_kernel_of_def)
  moreover have "all_succeed w'"
    using e pr es by (simp add: all_succeed_def note_call_def note_calls_def)
  moreover have "calls_since (length (cl_log w)) w'
         = [host_calloc, clRetainMemObject, clRetainEvent,
            clCreateKernel kern_gpuhashjoin_main] @ submission_calls gj kt (proj_kernel_of gj)"
    using e(1) by (simp add: calls_since_def note_call_def note_calls_def)
  ultimately show ?thesis using e evs
    by (auto simp: note_call_def note_calls_def new_clstate_def)
qed

section \<open>The callback's answer to a result buffer that was too small\<close>

lemma release_hash_table_fields:
  "cl_rc (release_hash_table w) = cl_rc w"
  "programs (release_hash_table w) = programs w"
  "ev_status (release_hash_table w) = ev_status w"
  "shmem_alloc (release_hash_table w) = shmem_alloc w"
  "handles (release_hash_table w) = handles w"
  "n_kernel (hjtable (release_hash_table w)) = n_kernel (hjtable w) - 1"
  "cl_log (release_hash_table w) = cl_log w @ [clReleaseMemObject M_hash, clReleaseEvent 0]"
  by (simp_all add: release_hash_table_def Let_def note_calls_def)

lemma release_submission_fields:
  "cl_rc (release_submission c w) = cl_rc w"
  "programs (release_submission c w) = programs w"
  "ev_status (release_submission c w) = ev_status w"
  "shmem_alloc (release_submission c w) = shmem_alloc w"
  "handles (release_submission c w) = handles w"
  "n_kernel (hjtable (release_submission c w)) = n_kernel (hjtable w) - 1"
  by (simp_all add: release_submission_def release_hash_table_fields note_calls_def)

lemma release_submission_log:
  "\<exists>cs. cl_log (release_submission c w) = cl_log w @ cs
        \<and> pgstrom_enqueue_message \<notin> set cs \<and> pgstrom_reply_message \<notin> set cs
        \<and> clEnqueueWriteBuffer M_hash \<notin> set cs
        \<and> clEnqueueNDRangeKernel kern_gpuhashjoin_main \<notin> set cs"
  by (auto simp: release_submission_def release_hash_table_fields note_calls_def)


lemma enlarged_store_format:
  assumes "has_result_format gj"
  shows "\<exists>new_kds. enlarged_store L (pds_dest gj) = Some new_kds
           \<and> format new_kds = format (pds_dest gj) \<and> nitems_kds new_kds = 0
           \<and> (format (pds_dest gj) = KDS_FORMAT_TUPSLOT
                \<longrightarrow> nrooms_kds new_kds = nitems_kds (pds_dest gj))"
  using assms by (auto simp: has_result_format_def enlarged_store_def Let_def)

lemma respond_overflow:
  assumes ns: "errcode (kresults gj) = StromError_DataStoreNoSpace"
    and new: "enlarged_store L (pds_dest gj) = Some new_kds"
  shows "clserv_respond_hashjoin L c True gj w =
     (let w1 = release_submission c w;
          gj1 = gj\<lparr>msg_errcode := StromError_DataStoreNoSpace,
                   kresults := (kresults gj)\<lparr>nrooms := nitems_kds (pds_dest gj), nitems := 0,
                                              errcode := StromError_Success\<rparr>\<rparr>
      in case pgstrom_shmem_alloc w1 of
           (False, w2) \<Rightarrow> (Reply (gj1\<lparr>msg_errcode := StromError_OutOfSharedMemory\<rparr>),
                           note_call pgstrom_reply_message w2)
         | (True, w2) \<Rightarrow>
             (case pgstrom_shmem_alloc w2 of
                (False, w3) \<Rightarrow> (Reply (gj1\<lparr>msg_errcode := StromError_OutOfSharedMemory\<rparr>),
                                note_call pgstrom_reply_message w3)
              | (True, w3) \<Rightarrow> (Retry (gj1\<lparr>pds_dest := new_kds\<rparr>),
                               note_call pgstrom_enqueue_message w3)))"
  using ns new by (simp add: clserv_respond_hashjoin_def retry_with_larger_buffer_def Let_def)

lemma shmem_alloc_unscripted:
  "shmem_alloc w = [] \<Longrightarrow> pgstrom_shmem_alloc w = (True, w)"
  by (simp add: pgstrom_shmem_alloc_def)


lemma main_kernel_submitted:
  "clEnqueueNDRangeKernel kern_gpuhashjoin_main \<in> set (submission_calls gj kt kern)"
  by (simp add: submission_calls_def)

lemma process_submits:
  assumes ok: "all_succeed w" and fmt: "has_result_format gj"
  shows "\<exists>clghj w'. clserv_process_gpuhashjoin kt gj w = (Submitted clghj, w')
     \<and> all_succeed w' \<and> shmem_alloc w' = shmem_alloc w
     \<and> cl_log w' = cl_log w @ calls_since (length (cl_log w)) w'
     \<and> calls_since (length (cl_log w)) w'
         = host_calloc
           # (if n_kernel (hjtable w) = 0
              then [clCreateBuffer M_hash, clEnqueueWriteBuffer M_hash]
              else [clRetainMemObject, clRetainEvent])
           @ clCreateKernel kern_gpuhashjoin_main # submission_calls gj kt (proj_kernel_of gj)
     \<and> n_kernel (hjtable w') = n_kernel (hjtable w) + 1"
proof (cases "n_kernel (hjtable w) = 0")
  case True
  from process_first[OF ok fmt True, of kt] show ?thesis using True by auto
next
  case False
  from process_shared[OF ok fmt False, of kt] show ?thesis using False by auto
qed

text \<open>
  C2, as stated, fails: the message enqueued again is processed like any other,
  and the join kernel is launched again.
\<close>

theorem overflow_retry_counterexample:
  "\<not> (\<forall>L c gj w gj' w' r w''.
         clserv_respond_hashjoin L c True gj w = (Retry gj', w')
         \<and> clserv_process_gpuhashjoin False gj' w' = (r, w'')
         \<longrightarrow> clEnqueueNDRangeKernel kern_gpuhashjoin_main
               \<notin> set (calls_since (length (cl_log w')) w''))"
proof
  assume a: "\<forall>L c gj w gj' w' r w''.
         clserv_respond_hashjoin L c True gj w = (Retry gj', w')
         \<and> clserv_process_gpuhashjoin False gj' w' = (r, w'')
         \<longrightarrow> clEnqueueNDRangeKernel kern_gpuhashjoin_main
               \<notin> set (calls_since (length (cl_log w')) w'')"
  have fmt: "has_result_format overflowed_session"
    by (simp add: has_result_format_def overflowed_session_def plain_dest_def)
  from enlarged_store_format[OF fmt, of example_layout] obtain new_kds where
    new: "enlarged_store example_layout (pds_dest overflowed_session) = Some new_kds"
    and f: "format new_kds = format (pds_dest overflowed_session)" by blast
  have ns: "errcode (kresults overflowed_session) = StromError_DataStoreNoSpace"
    by (simp add: overflowed_session_def)
  let ?w1 = "release_submission new_clstate serving_server"
  have al: "shmem_alloc ?w1 = []"
    by (simp add: release_submission_fields serving_server_def fresh_server_def)
  obtain gj' where
    r: "clserv_respond_hashjoin example_layout new_clstate True overflowed_session serving_server
          = (Retry gj', note_call pgstrom_enqueue_message ?w1)"
    and p: "pds_dest gj' = new_kds"
    using respond_overflow[OF ns new, of new_clstate serving_server]
    by (simp add: Let_def shmem_alloc_unscripted[OF al])
  let ?w' = "note_call pgstrom_enqueue_message ?w1"
  have ok: "all_succeed ?w'"
    by (simp add: all_succeed_def note_call_def release_submission_fields serving_server_def
        fresh_server_def)
  have fmt': "has_result_format gj'"
    using fmt f p by (simp add: has_result_format_def)
  from process_submits[OF ok fmt', of False] obtain clghj w'' where
    s: "clserv_process_gpuhashjoin False gj' ?w' = (Submitted clghj, w'')"
    and l: "clEnqueueNDRangeKernel kern_gpuhashjoin_main
              \<in> set (calls_since (length (cl_log ?w')) w'')"
    by (auto simp: main_kernel_submitted)
  from a[rule_format, OF conjI, OF r s] l show False by simp
qed

text \<open>
  C2, amended. On \<open>StromError_DataStoreNoSpace\<close> the callback makes the row
  count the destination store came back with the room count of the result
  buffer, allocates a new destination store for that count, and enqueues the
  message again; the message is then processed as a whole, the launch of the
  join kernel included.
\<close>

theorem overflow_retry_resubmits_session:
  assumes ok: "all_succeed w" and al: "shmem_alloc w = []"
    and fmt: "has_result_format gj"
    and ns: "errcode (kresults gj) = StromError_DataStoreNoSpace"
  shows "\<exists>gj' w'. clserv_respond_hashjoin L c True gj w = (Retry gj', w')
     \<and> nrooms (kresults gj') = nitems_kds (pds_dest gj) \<and> nitems (kresults gj') = 0
     \<and> errcode (kresults gj') = StromError_Success
     \<and> enlarged_store L (pds_dest gj) = Some (pds_dest gj')
     \<and> nitems_kds (pds_dest gj') = 0
     \<and> (format (pds_dest gj) = KDS_FORMAT_TUPSLOT
          \<longrightarrow> nrooms_kds (pds_dest gj') = nitems_kds (pds_dest gj))
     \<and> pds gj' = pds gj
     \<and> last (cl_log w') = pgstrom_enqueue_message
     \<and> (\<exists>c' w''. clserv_process_gpuhashjoin kt gj' w' = (Submitted c', w'')
           \<and> calls_since (length (cl_log w')) w''
               = host_calloc
                 # (if n_kernel (hjtable w') = 0
                    then [clCreateBuffer M_hash, clEnqueueWriteBuffer M_hash]
                    else [clRetainMemObject, clRetainEvent])
                 @ clCreateKernel kern_gpuhashjoin_main
                 # submission_calls gj' kt (proj_kernel_of gj')
           \<and> clEnqueueNDRangeKernel kern_gpuhashjoin_main
               \<in> set (calls_since (length (cl_log w')) w''))"
proof -
  from enlarged_store_format[OF fmt, of L] obtain new_kds where
    new: "enlarged_store L (pds_dest gj) = Some new_kds"
    and f: "format new_kds = format (pds_dest gj)" and n0: "nitems_kds new_kds = 0"
    and nr: "format (pds_dest gj) = KDS_FORMAT_TUPSLOT
               \<longrightarrow> nrooms_kds new_kds = nitems_kds (pds_dest gj)"
    by blast
  let ?w1 = "release_submission c w"
  let ?w' = "note_call pgstrom_enqueue_message ?w1"
  let ?gj' = "gj\<lparr>msg_errcode := StromError_DataStoreNoSpace,
                 kresults := (kresults gj)\<lparr>nrooms := nitems_kds (pds_dest gj), nitems := 0,
                                            errcode := StromError_Success\<rparr>,
                 pds_dest := new_kds\<rparr>"
  have al1: "shmem_alloc ?w1 = []" using al by (simp add: release_submission_fields)
  have r: "clserv_respond_hashjoin L c True gj w = (Retry ?gj', ?w')"
    using respond_overflow[OF ns new, of c w]
    by (simp add: Let_def shmem_alloc_unscripted[OF al1])
  have ok': "all_succeed ?w'"
    using ok by (simp add: all_succeed_def note_call_def release_submission_fields)
  have fmt': "has_result_format ?gj'"
    using fmt f by (simp add: has_result_format_def)
  from process_submits[OF ok' fmt', of kt] obtain c' w'' where
    s: "clserv_process_gpuhashjoin kt ?gj' ?w' = (Submitted c', w'')"
    and l: "calls_since (length (cl_log ?w')) w''
         = host_calloc
           # (if n_kernel (hjtable ?w') = 0
              then [clCreateBuffer M_hash, clEnqueueWriteBuffer M_hash]
              else [clRetainMemObject, clRetainEvent])
           @ clCreateKernel kern_gpuhashjoin_main # submission_calls ?gj' kt (proj_kernel_of ?gj')"
    by blast
  have m: "clEnqueueNDRangeKernel kern_gpuhashjoin_main
             \<in> set (calls_since (length (cl_log ?w')) w'')"
    unfolding l by (simp add: main_kernel_submitted)
  have lst: "last (cl_log ?w') = pgstrom_enqueue_message" by (simp add: note_call_def)
  show ?thesis
    using r new n0 nr s l m lst by (intro exI[of _ ?gj'] exI[of _ ?w']) auto
qed

theorem overflow_retry_resubmits_session_witness:
  "all_succeed serving_server \<and> shmem_alloc serving_server = []
   \<and> has_result_format overflowed_session
   \<and> errcode (kresults overflowed_session) = StromError_DataStoreNoSpace
   \<and> (\<exists>gj' w'. clserv_respond_hashjoin example_layout new_clstate True overflowed_session
                  serving_server = (Retry gj', w')
        \<and> nrooms (kresults gj') = 5 \<and> nrooms_kds (pds_dest gj') = 5
        \<and> (\<exists>c' w''. clserv_process_gpuhashjoin False gj' w' = (Submitted c', w'')
              \<and> clEnqueueNDRangeKernel kern_gpuhashjoin_main
                  \<in> set (calls_since (length (cl_log w')) w'')))"
proof -
  have h: "all_succeed serving_server" "shmem_alloc serving_server = []"
    "has_result_format overflowed_session"
    "errcode (kresults overflowed_session) = StromError_DataStoreNoSpace"
    by (simp_all add: all_succeed_def serving_server_def fresh_server_def
        has_result_format_def overflowed_session_def plain_dest_def)
  have v: "nitems_kds (pds_dest overflowed_session) = 5"
    "format (pds_dest overflowed_session) = KDS_FORMAT_TUPSLOT"
    by (simp_all add: overflowed_session_def plain_dest_def)
  from overflow_retry_resubmits_session[OF h, of example_layout new_clstate False]
  show ?thesis using h v by (elim exE conjE) (intro conjI exI; (assumption | simp))
qed

section \<open>A session whose first result buffer is too small\<close>













section \<open>Sessions that share the hash buffer on the device\<close>
















end
